theory Spec2Isabelle
  imports Complex_Main
begin

section \<open>The circuit breaker of utils/upstream.js\<close>

text \<open>
  The breaker is the module-level state of the upstream util: \<open>state\<close>,
  \<open>failureTimes\<close>, \<open>openUntil\<close>, \<open>nextProbeAt\<close> and \<open>probeInFlight\<close>.
  Every function that mutates it takes the breaker and returns the new one. Times are
  the readings of \<open>Date.now()\<close>, integers of milliseconds.
\<close>

datatype circuit = CLOSED | OPEN | HALF_OPEN

record breaker =
  state :: circuit
  failureTimes :: "int list"
  openUntil :: int
  nextProbeAt :: int
  probeInFlight :: bool

definition DEFAULT_TIMEOUT_MS :: int where "DEFAULT_TIMEOUT_MS = 2000"
definition MAX_RETRIES :: nat where "MAX_RETRIES = 2"
definition BACKOFF_FACTOR :: nat where "BACKOFF_FACTOR = 2"
definition FAILURE_WINDOW_MS :: int where "FAILURE_WINDOW_MS = 30000"
definition FAILURE_THRESHOLD :: nat where "FAILURE_THRESHOLD = 3"
definition OPEN_COOLDOWN_MS :: int where "OPEN_COOLDOWN_MS = 30000"
definition HALF_OPEN_PROBE_INTERVAL_MS :: int where "HALF_OPEN_PROBE_INTERVAL_MS = 5000"

text \<open>The values of the module's \<open>let\<close> declarations when it is loaded.\<close>

definition initial :: breaker where
  "initial = \<lparr>state = CLOSED, failureTimes = [], openUntil = 0, nextProbeAt = 0,
     probeInFlight = False\<rparr>"

definition pruneFailures :: "breaker \<Rightarrow> int \<Rightarrow> breaker" where
  "pruneFailures b ts =
     (let cutoff = ts - FAILURE_WINDOW_MS
      in b\<lparr>failureTimes := filter (\<lambda>t. t \<ge> cutoff) (failureTimes b)\<rparr>)"

definition recordFailure :: "breaker \<Rightarrow> int \<Rightarrow> breaker" where
  "recordFailure b ts =
     (let b1 = pruneFailures b ts;
          b2 = b1\<lparr>failureTimes := failureTimes b1 @ [ts]\<rparr>
      in if state b2 = CLOSED \<and> length (failureTimes b2) \<ge> FAILURE_THRESHOLD
         then b2\<lparr>state := OPEN, openUntil := ts + OPEN_COOLDOWN_MS\<rparr>
         else b2)"

definition recordSuccess :: "breaker \<Rightarrow> breaker" where
  "recordSuccess b =
     b\<lparr>failureTimes := [], state := CLOSED, openUntil := 0, nextProbeAt := 0,
       probeInFlight := False\<rparr>"

text \<open>
  \<open>Math.ceil(x / 1000)\<close> on an integer \<open>x\<close> of milliseconds. The quotient of the
  source is a floating-point number; for the integers a clock produces it is the
  exact quotient, whose ceiling is computed here by integer division
  (\<open>ceilSeconds_real\<close> below relates the two).
\<close>

definition ceilSeconds :: "int \<Rightarrow> int" where
  "ceilSeconds x = - ((- x) div 1000)"

text \<open>
  An error object as the caller of \<open>upstream\<close> reads it: its \<open>statusCode\<close>, its
  \<open>message\<close> and the \<open>headers\<close> that the source sets on it.
\<close>

record http_error =
  statusCode :: nat
  message :: string
  headers :: "(string \<times> int) list"

text \<open>
  Modelled from the spec: the helper \<open>fastify.httpErrors.serviceUnavailable\<close>, which
  is no code of this repository (the instance has it only when a plugin has decorated
  it with \<open>httpErrors\<close>). The specification has a rejected or failed call surface "a
  service-unavailable error carrying a Retry-After hint", so the helper is taken to
  build an error of status 503 with the message given; \<open>serviceUnavailable msg n\<close> is
  that error after the source has set its headers to \<open>{ 'Retry-After': n }\<close>. What a
  call throws on an instance with or without the helper is \<open>throwAt\<close> below.
\<close>

definition serviceUnavailable :: "string \<Rightarrow> int \<Rightarrow> http_error" where
  "serviceUnavailable msg retryAfter =
     \<lparr>statusCode = 503, message = msg, headers = [(''Retry-After'', retryAfter)]\<rparr>"

text \<open>
  The breaker's short-circuiting at the head of \<open>upstream\<close>: everything between
  \<open>const ts = now()\<close> and the retry loop. \<open>Inl\<close> is the error thrown, with the
  breaker untouched by then but for the OPEN to HALF_OPEN step, which the source makes
  before the half-open test; the breaker is returned in both cases.
\<close>

definition openGate :: "breaker \<Rightarrow> int \<Rightarrow> http_error + breaker" where
  "openGate b ts =
     (if state b = OPEN then
        (if ts \<ge> openUntil b then Inr (b\<lparr>state := HALF_OPEN, nextProbeAt := ts\<rparr>)
         else Inl (serviceUnavailable ''Upstream circuit open''
                     (ceilSeconds (openUntil b - ts))))
      else Inr b)"

definition halfOpenGate :: "breaker \<Rightarrow> int \<Rightarrow> http_error + breaker" where
  "halfOpenGate b ts =
     (if state b = HALF_OPEN then
        (if probeInFlight b \<or> ts < nextProbeAt b
         then Inl (serviceUnavailable ''Upstream circuit half-open''
                     (ceilSeconds (nextProbeAt b - ts)))
         else Inr (b\<lparr>probeInFlight := True,
                      nextProbeAt := ts + HALF_OPEN_PROBE_INTERVAL_MS\<rparr>))
      else Inr b)"

text \<open>
  \<open>gate b ts\<close> is the pair of the outcome (the error thrown, or nothing) and the
  breaker as the head of \<open>upstream\<close> leaves it.
\<close>

definition gate :: "breaker \<Rightarrow> int \<Rightarrow> http_error option \<times> breaker" where
  "gate b ts =
     (case openGate b ts of
        Inl e \<Rightarrow> (Some e, b)
      | Inr b1 \<Rightarrow>
          (case halfOpenGate b1 ts of
             Inl e \<Rightarrow> (Some e, b1)
           | Inr b2 \<Rightarrow> (None, b2)))"

section \<open>The retry loop of upstream\<close>

text \<open>
  A JSON value, as \<open>res.json()\<close> returns it. Numbers are kept as integers (the
  identifiers and counts of this service); an object is the list of its fields.
\<close>

datatype json =
  JNull | JBool bool | JNum int | JStr string | JArr "json list" | JObj "(string \<times> json) list"

text \<open>
  What one attempt meets. \<open>fetch\<close> rejects with an AbortError when the timer aborts it
  (\<open>Aborted\<close>), rejects with another error when the network fails (\<open>NetworkFailure\<close>), or
  resolves with a response of some status. The body of the response is the JSON value
  that \<open>res.json()\<close> parses, or none when the body is not JSON and \<open>res.json()\<close> rejects.
\<close>

datatype fetched = Aborted | NetworkFailure | Response nat "json option"

text \<open>
  The readings of \<open>now()\<close> taken while an attempt is handled: by \<open>pruneFailures()\<close> on
  the success path, by \<open>recordFailure()\<close> in the catch block, and by
  \<open>openUntil = now() + OPEN_COOLDOWN_MS\<close> after it.
\<close>

record attempt =
  fetched :: fetched
  nowPrune :: int
  nowFailure :: int
  nowReopen :: int

text \<open>
  The value caught by the catch block: its \<open>name\<close> and its \<open>statusCode\<close>, which only
  the error built from a response that is not ok carries.
\<close>

record caught =
  name :: string
  status :: "nat option"

definition ok :: "nat \<Rightarrow> bool" where
  "ok s = (200 \<le> s \<and> s \<le> 299)"

definition transient :: "caught \<Rightarrow> bool" where
  "transient err =
     (name err = ''AbortError'' \<or>
      (case status err of None \<Rightarrow> False | Some s \<Rightarrow> s \<noteq> 0 \<and> s \<ge> 500))"

text \<open>
  What the breaker is told and what the call does besides, in order: the trace of one
  call. \<open>Fetch\<close> is one network attempt, \<open>Sleep d\<close> the backoff of \<open>d\<close> ms, \<open>Warn\<close> the
  log line before it; the other three are the calls of the breaker's functions.
\<close>

datatype effect =
  Fetch nat | Warn nat nat | Sleep nat
  | RecordSuccess | PruneFailures | RecordFailure

text \<open>
  The try block of one attempt: \<open>Inl\<close> is the value thrown into the catch block,
  \<open>Inr\<close> the payload returned. The success branch tells the breaker before the body is
  parsed, as the source does (\<open>recordSuccess()\<close> or \<open>pruneFailures()\<close> precede
  \<open>return await res.json()\<close>).
\<close>

definition tryBlock :: "breaker \<Rightarrow> attempt \<Rightarrow> (caught + json) \<times> breaker \<times> effect list" where
  "tryBlock b a =
     (case fetched a of
        Aborted \<Rightarrow> (Inl \<lparr>name = ''AbortError'', status = None\<rparr>, b, [])
      | NetworkFailure \<Rightarrow> (Inl \<lparr>name = ''TypeError'', status = None\<rparr>, b, [])
      | Response s body \<Rightarrow>
          if \<not> ok s then (Inl \<lparr>name = ''Error'', status = Some s\<rparr>, b, [])
          else
            let (b1, told) =
                  (if state b = HALF_OPEN then (recordSuccess b, [RecordSuccess])
                   else (pruneFailures b (nowPrune a), [PruneFailures]))
            in (case body of
                  Some payload \<Rightarrow> (Inr payload, b1, told)
                | None \<Rightarrow> (Inl \<lparr>name = ''SyntaxError'', status = None\<rparr>, b1, told)))"

text \<open>The branch of the catch block that counts the failure and manages the state.\<close>

definition finalFailure :: "breaker \<Rightarrow> attempt \<Rightarrow> breaker" where
  "finalFailure b a =
     (let b1 = recordFailure b (nowFailure a)
      in if state b1 = HALF_OPEN
         then b1\<lparr>state := OPEN, probeInFlight := False,
                 openUntil := nowReopen a + OPEN_COOLDOWN_MS\<rparr>
         else b1)"

definition finallyBlock :: "breaker \<Rightarrow> breaker" where
  "finallyBlock b = (if state b = HALF_OPEN then b\<lparr>probeInFlight := False\<rparr> else b)"

definition backoff :: "nat \<Rightarrow> nat" where
  "backoff n = 100 * BACKOFF_FACTOR ^ (n - 1)"

text \<open>
  The for loop, from attempt \<open>n\<close> on; \<open>env n\<close> is what attempt \<open>n\<close> meets. The result
  is the error thrown (\<open>Inl\<close>) or the value returned, \<open>None\<close> when the loop ends
  without returning (the function then returns undefined).
\<close>

function retryLoop ::
  "(nat \<Rightarrow> attempt) \<Rightarrow> nat \<Rightarrow> breaker \<Rightarrow> (http_error + json option) \<times> breaker \<times> effect list"
where
  "retryLoop env n b =
     (if n \<le> MAX_RETRIES + 1 then
        (case tryBlock b (env n) of
           (Inr payload, b1, told) \<Rightarrow>
             (Inr (Some payload), finallyBlock b1, Fetch n # told)
         | (Inl err, b1, told) \<Rightarrow>
             if \<not> transient err \<or> n > MAX_RETRIES then
               (Inl (serviceUnavailable ''Upstream service unavailable''
                       (ceilSeconds OPEN_COOLDOWN_MS)),
                finallyBlock (finalFailure b1 (env n)),
                Fetch n # told @ [RecordFailure])
             else
               (case retryLoop env (n + 1) (finallyBlock b1) of
                  (r, b2, tr) \<Rightarrow> (r, b2, Fetch n # told @ [Warn n (backoff n), Sleep (backoff n)] @ tr)))
      else (Inr None, b, []))"
  by pat_completeness auto
termination
  by (relation "measure (\<lambda>(env, n, b). MAX_RETRIES + 2 - n)") auto

declare retryLoop.simps [simp del]

text \<open>
  \<open>upstream b ts env\<close>: one call run to its end with no other call interleaved, on the
  breaker \<open>b\<close>, with \<open>ts\<close> the reading of \<open>now()\<close> at its head.
\<close>

definition upstream ::
  "breaker \<Rightarrow> int \<Rightarrow> (nat \<Rightarrow> attempt) \<Rightarrow> (http_error + json option) \<times> breaker \<times> effect list"
where
  "upstream b ts env =
     (case gate b ts of
        (Some e, b1) \<Rightarrow> (Inl e, b1, [])
      | (None, b1) \<Rightarrow> retryLoop env 1 b1)"

text \<open>
  An environment given by a script, used to run the model on concrete calls: attempt
  \<open>n\<close> meets the \<open>n\<close>-th entry of the list (the timer aborts any attempt beyond
  it), and every reading of the clock while attempt \<open>n\<close> is handled is the \<open>n\<close>-th
  time of the second list (0 beyond it).
\<close>

definition scripted :: "fetched list \<Rightarrow> int list \<Rightarrow> nat \<Rightarrow> attempt" where
  "scripted fs ts n =
     (let t = (if 0 < n \<and> n \<le> length ts then ts ! (n - 1) else 0)
      in \<lparr>fetched = (if 0 < n \<and> n \<le> length fs then fs ! (n - 1) else Aborted),
          nowPrune = t, nowFailure = t, nowReopen = t\<rparr>)"

text \<open>The part of a trace that the breaker is told: the calls of its functions.\<close>

definition reported :: "effect list \<Rightarrow> effect list" where
  "reported tr = filter (\<lambda>x. x \<in> {RecordSuccess, PruneFailures, RecordFailure}) tr"

section \<open>The fan-out of services/index.js\<close>

text \<open>
  The route \<open>/getEventsByUserId/:id\<close>. The calls of \<open>upstream\<close> that it makes are kept
  by what they ask for; the identifiers of a batch, which the source joins with commas
  into the query string, are kept as the list.
\<close>

datatype request = GetUserById string | GetEventsByIds "json list" | GetEventById json

text \<open>
  What the route throws: the error of a rejected \<open>upstream\<close> call, or the TypeError of
  calling \<open>slice\<close>, \<open>map\<close> or \<open>join\<close> on a value that has none.
\<close>

datatype route_error = Rejected http_error | TypeError

definition smallEventSize :: nat where "smallEventSize = 50"

text \<open>\<open>Boolean(v)\<close> on a JSON value.\<close>

fun truthy :: "json \<Rightarrow> bool" where
  "truthy JNull = False"
| "truthy (JBool b) = b"
| "truthy (JNum n) = (n \<noteq> 0)"
| "truthy (JStr s) = (s \<noteq> [])"
| "truthy (JArr xs) = True"
| "truthy (JObj fs) = True"

text \<open>
  \<open>user?.events?.length\<close> and what the route can do with \<open>user.events\<close> after it. Only
  an object has an \<open>events\<close> property. An array of events goes on; a falsy length (no
  events, an empty array or string, an object with no truthy \<open>length\<close>) makes the route
  return the empty array; a string or an object with a truthy length passes the test
  but has no \<open>map\<close>, and its batches no \<open>join\<close>, so the route throws a TypeError
  before any call.
\<close>

datatype events = NoEvents | NotAnArray | Events "json list"

definition eventsOf :: "json \<Rightarrow> events" where
  "eventsOf user =
     (case user of
        JObj fs \<Rightarrow>
          (case map_of fs ''events'' of
             Some (JArr xs) \<Rightarrow> if xs = [] then NoEvents else Events xs
           | Some (JStr s) \<Rightarrow> if s = [] then NoEvents else NotAnArray
           | Some (JObj gs) \<Rightarrow>
               (case map_of gs ''length'' of
                  Some v \<Rightarrow> if truthy v then NotAnArray else NoEvents
                | None \<Rightarrow> NoEvents)
           | _ \<Rightarrow> NoEvents)
      | _ \<Rightarrow> NoEvents)"

text \<open>\<open>xs.slice(i, j)\<close> for indices \<open>0 \<le> i\<close> and \<open>0 \<le> j\<close>: the end is cut at the length.\<close>

definition slice :: "'a list \<Rightarrow> nat \<Rightarrow> nat \<Rightarrow> 'a list" where
  "slice xs i j = take (j - i) (drop i xs)"

text \<open>The loop that fills \<open>chunked\<close>, from index \<open>i\<close> on.\<close>

function chunkLoop :: "json list \<Rightarrow> nat \<Rightarrow> json list list \<Rightarrow> json list list" where
  "chunkLoop events i chunked =
     (if i < length events
      then chunkLoop events (i + smallEventSize) (chunked @ [slice events i (i + smallEventSize)])
      else chunked)"
  by pat_completeness auto
termination
  by (relation "measure (\<lambda>(events, i, chunked). length events - i)")
     (auto simp: smallEventSize_def)

declare chunkLoop.simps [simp del]

text \<open>\<open>vs.flat()\<close>: the elements of the arrays among \<open>vs\<close> take the place of the arrays.\<close>

definition flat :: "json list \<Rightarrow> json list" where
  "flat vs = concat (map (\<lambda>v. case v of JArr xs \<Rightarrow> xs | _ \<Rightarrow> [v]) vs)"

text \<open>
  \<open>Promise.all\<close> of the promises whose outcomes are \<open>rs\<close>: the values in the order of
  the promises when all are fulfilled, else the error of the promise that rejects
  first. \<open>order\<close> lists the promises in the order they settle (a promise that it leaves
  out settles after those it lists, in the order of the array).
\<close>

definition promiseAll :: "nat list \<Rightarrow> (http_error + 'a) list \<Rightarrow> http_error + 'a list" where
  "promiseAll order rs =
     (case filter (\<lambda>k. k < length rs \<and> isl (rs ! k)) (order @ [0..<length rs]) of
        k # _ \<Rightarrow> Inl (projl (rs ! k))
      | [] \<Rightarrow> Inr (map projr rs))"

text \<open>
  \<open>Promise.allSettled\<close> followed by the filter on \<open>status === 'fulfilled'\<close> and the map
  to \<open>value\<close>: it never rejects.
\<close>

definition fulfilledValues :: "(http_error + 'a) list \<Rightarrow> 'a list" where
  "fulfilledValues rs = map projr (filter (\<lambda>r. \<not> isl r) rs)"

text \<open>
  The route. \<open>outcome k\<close> is how the \<open>k\<close>-th call of \<open>upstream\<close> that the route makes
  ends (call 0 fetches the user): rejected with an error, or fulfilled with a JSON
  value, since a call never returns undefined (\<open>upstream_defined\<close> below). \<open>order\<close> is
  the order in which the batch calls settle.
  The result is the list of the calls made, all of the batch calls and all of the
  single calls being made before any of them is awaited, with what the route returns
  or throws.
\<close>

definition getEventsByUserId ::
  "(nat \<Rightarrow> http_error + json) \<Rightarrow> nat list \<Rightarrow> string \<Rightarrow>
     request list \<times> (route_error + json list)"
where
  "getEventsByUserId outcome order uid =
     (case outcome 0 of
        Inl e \<Rightarrow> ([GetUserById uid], Inl (Rejected e))
      | Inr user \<Rightarrow>
          (case eventsOf user of
             NoEvents \<Rightarrow> ([GetUserById uid], Inr [])
           | NotAnArray \<Rightarrow> ([GetUserById uid], Inl TypeError)
           | Events events \<Rightarrow>
               if length events > smallEventSize then
                 let chunked = chunkLoop events 0 [];
                     batchedResults =
                       promiseAll order (map (\<lambda>k. outcome (Suc k)) [0..<length chunked])
                 in (GetUserById uid # map GetEventsByIds chunked,
                     case batchedResults of
                       Inl e \<Rightarrow> Inl (Rejected e)
                     | Inr vs \<Rightarrow> Inr (filter truthy (flat vs)))
               else
                 let results = map (\<lambda>k. outcome (Suc k)) [0..<length events]
                 in (GetUserById uid # map GetEventById events,
                     Inr (fulfilledValues results))))"

text \<open>
  Outcomes and users for running the route on concrete inputs: the \<open>k\<close>-th call ends
  as the \<open>k\<close>-th entry of a list says (it is rejected beyond the list), and a user
  whose events are the numbers \<open>1, \<dots>, n\<close>.
\<close>

definition replies :: "(http_error + json) list \<Rightarrow> nat \<Rightarrow> http_error + json" where
  "replies rs k =
     (if k < length rs then rs ! k
      else Inl (serviceUnavailable ''Upstream service unavailable'' 30))"

definition userWithEvents :: "nat \<Rightarrow> json" where
  "userWithEvents n = JObj [(''id'', JNum 1), (''events'', JArr (map (\<lambda>k. JNum (int k)) [1..<Suc n]))]"


section \<open>Calls interleaved on the event loop\<close>

text \<open>
  Several calls of \<open>upstream\<close> share the breaker. Each runs without interruption from
  one \<open>await\<close> to the next, so a call in progress is at one of the awaits of the
  source: of \<open>fetch\<close> in attempt \<open>n\<close>, of \<open>res.text()\<close> after a response of status \<open>s\<close>
  that is not ok, of \<open>res.json()\<close> after an ok response (whose body parses to the given
  value, or does not parse), or of \<open>sleep(delay)\<close> in the catch block of attempt \<open>n\<close>. A
  call that is over has returned a payload, returned undefined or thrown.
\<close>

datatype pc =
  AtFetch nat | AtText nat nat | AtJson nat "json option" | AtSleep nat
  | Returned json | ReturnedUndefined | Thrown http_error

text \<open>
  A call in the system: where it is, and whether it went through the half-open block
  at the head of \<open>upstream\<close>, the block that sets \<open>probeInFlight = true\<close> (this flag of
  the model is not a variable of the source; it records which calls are probes).
\<close>

record call =
  pc :: pc
  probe :: bool

record system =
  shared :: breaker
  calls :: "call list"

text \<open>
  The catch block of attempt \<open>n\<close> up to its \<open>await sleep(delay)\<close> or, on a final failure,
  through \<open>throw e\<close> and the finally block.
\<close>

definition catchBlock :: "breaker \<Rightarrow> nat \<Rightarrow> caught \<Rightarrow> attempt \<Rightarrow> breaker \<times> pc" where
  "catchBlock b n err a =
     (if \<not> transient err \<or> n > MAX_RETRIES then
        (finallyBlock (finalFailure b a),
         Thrown (serviceUnavailable ''Upstream service unavailable''
                   (ceilSeconds OPEN_COOLDOWN_MS)))
      else (b, AtSleep n))"

text \<open>
  A call resumes from its await and runs to the next one. The record \<open>a\<close> holds what
  the fetch meets, when the await is that of a fetch, and the readings of the clock
  taken on the way.
\<close>

fun resume :: "breaker \<Rightarrow> pc \<Rightarrow> attempt \<Rightarrow> breaker \<times> pc" where
  "resume b (AtFetch n) a =
     (case fetched a of
        Aborted \<Rightarrow> catchBlock b n \<lparr>name = ''AbortError'', status = None\<rparr> a
      | NetworkFailure \<Rightarrow> catchBlock b n \<lparr>name = ''TypeError'', status = None\<rparr> a
      | Response s body \<Rightarrow>
          if \<not> ok s then (b, AtText n s)
          else (if state b = HALF_OPEN then recordSuccess b
                else pruneFailures b (nowPrune a),
                AtJson n body))"
| "resume b (AtText n s) a = catchBlock b n \<lparr>name = ''Error'', status = Some s\<rparr> a"
| "resume b (AtJson n body) a =
     (case body of
        Some payload \<Rightarrow> (finallyBlock b, Returned payload)
      | None \<Rightarrow> catchBlock b n \<lparr>name = ''SyntaxError'', status = None\<rparr> a)"
| "resume b (AtSleep n) a =
     (finallyBlock b, if n + 1 \<le> MAX_RETRIES + 1 then AtFetch (n + 1) else ReturnedUndefined)"
| "resume b (Returned payload) a = (b, Returned payload)"
| "resume b ReturnedUndefined a = (b, ReturnedUndefined)"
| "resume b (Thrown e) a = (b, Thrown e)"

text \<open>A new call, from \<open>const ts = now()\<close> to the fetch of its first attempt.\<close>

definition enter :: "breaker \<Rightarrow> int \<Rightarrow> breaker \<times> call" where
  "enter b ts =
     (case gate b ts of
        (Some e, b1) \<Rightarrow> (b1, \<lparr>pc = Thrown e, probe = False\<rparr>)
      | (None, b1) \<Rightarrow> (b1, \<lparr>pc = AtFetch 1, probe = (state b1 = HALF_OPEN)\<rparr>))"

text \<open>
  What the event loop does next: a new call arrives at the time \<open>ts\<close>, or the await of
  the \<open>i\<close>-th call is over and that call resumes.
\<close>

datatype event = Call int | Settle nat attempt

definition step :: "system \<Rightarrow> event \<Rightarrow> system" where
  "step sys ev =
     (case ev of
        Call ts \<Rightarrow>
          (case enter (shared sys) ts of
             (b, c) \<Rightarrow> \<lparr>shared = b, calls = calls sys @ [c]\<rparr>)
      | Settle i a \<Rightarrow>
          if i < length (calls sys) then
            (case resume (shared sys) (pc (calls sys ! i)) a of
               (b, p) \<Rightarrow> \<lparr>shared = b, calls = (calls sys)[i := (calls sys ! i)\<lparr>pc := p\<rparr>]\<rparr>)
          else sys)"

definition run :: "system \<Rightarrow> event list \<Rightarrow> system" where
  "run sys evs = foldl step sys evs"

definition start :: system where
  "start = \<lparr>shared = initial, calls = []\<rparr>"

text \<open>The probes that have an attempt in flight, and those that are not over.\<close>

definition probesInFlight :: "system \<Rightarrow> call list" where
  "probesInFlight sys =
     filter (\<lambda>c. probe c \<and> (case pc c of AtFetch n \<Rightarrow> True | _ \<Rightarrow> False)) (calls sys)"

definition probesOutstanding :: "system \<Rightarrow> call list" where
  "probesOutstanding sys =
     filter (\<lambda>c. probe c \<and>
               (case pc c of Returned p \<Rightarrow> False | ReturnedUndefined \<Rightarrow> False
                | Thrown e \<Rightarrow> False | _ \<Rightarrow> True))
       (calls sys)"

text \<open>What an await meets at the time \<open>t\<close>, for running the system on concrete events.\<close>

definition meets :: "fetched \<Rightarrow> int \<Rightarrow> attempt" where
  "meets f t = \<lparr>fetched = f, nowPrune = t, nowFailure = t, nowReopen = t\<rparr>"

text \<open>The flag \<open>probeInFlight\<close> is set only while the breaker is HALF_OPEN.\<close>

definition flagOnlyHalfOpen :: "breaker \<Rightarrow> bool" where
  "flagOnlyHalfOpen b = (state b = HALF_OPEN \<or> \<not> probeInFlight b)"

text \<open>
  The \<open>i\<close>-th call running on with no other call in between, for at most \<open>k\<close>
  resumptions: whatever it awaits in attempt \<open>n\<close> meets \<open>env n\<close>. The value of the call
  that is over, as \<open>upstream\<close> gives it, is read off with \<open>over\<close>.
\<close>

fun alone :: "nat \<Rightarrow> (nat \<Rightarrow> attempt) \<Rightarrow> nat \<Rightarrow> system \<Rightarrow> system" where
  "alone i env 0 sys = sys"
| "alone i env (Suc k) sys =
     (case pc (calls sys ! i) of
        AtFetch n \<Rightarrow> alone i env k (step sys (Settle i (env n)))
      | AtText n s \<Rightarrow> alone i env k (step sys (Settle i (env n)))
      | AtJson n body \<Rightarrow> alone i env k (step sys (Settle i (env n)))
      | AtSleep n \<Rightarrow> alone i env k (step sys (Settle i (env n)))
      | _ \<Rightarrow> sys)"

declare alone.simps [simp del]

definition over :: "http_error + json option \<Rightarrow> pc" where
  "over r = (case r of Inl e \<Rightarrow> Thrown e | Inr None \<Rightarrow> ReturnedUndefined
             | Inr (Some payload) \<Rightarrow> Returned payload)"


section \<open>The fastify instance passed to upstream\<close>

text \<open>
  The third argument of \<open>upstream\<close>. The source reads
  \<open>fastify.httpErrors.serviceUnavailable\<close> at each of its three throw sites (the open
  and the half-open rejection and the final failure) and \<open>fastify.log.warn\<close> before a
  backoff. Every instance has \<open>log\<close>; \<open>httpErrors\<close> is there only when a plugin has
  decorated the instance with it. The instance is kept by that helper, a parameter:
  the function from the message to the error it builds, or none.
\<close>

record fastify =
  httpErrors :: "(string \<Rightarrow> http_error) option"

text \<open>
  What a throw site raises, where \<open>e\<close> holds the message passed to the helper and the
  headers set on its result: the error built by the helper with those headers or, on
  an instance with no \<open>httpErrors\<close>, the TypeError of reading \<open>serviceUnavailable\<close> of
  undefined, which has neither a status nor headers.
\<close>

datatype thrown = HttpError http_error | UndefinedHelper

definition throwAt :: "fastify \<Rightarrow> http_error \<Rightarrow> thrown" where
  "throwAt f e =
     (case httpErrors f of
        None \<Rightarrow> UndefinedHelper
      | Some build \<Rightarrow> HttpError ((build (message e))\<lparr>headers := headers e\<rparr>))"

text \<open>
  A call on a given instance. The breaker is told, and the state is changed, before
  each throw site reads the helper (\<open>recordFailure()\<close> and the re-opening precede the
  final throw, the step to HALF_OPEN precedes the half-open one), and the finally block
  runs whatever is thrown; so the instance decides what is thrown and nothing else.
\<close>

definition upstreamWith ::
  "fastify \<Rightarrow> breaker \<Rightarrow> int \<Rightarrow> (nat \<Rightarrow> attempt) \<Rightarrow>
     (thrown + json option) \<times> breaker \<times> effect list"
where
  "upstreamWith f b ts env =
     (case upstream b ts env of
        (Inl e, b1, tr) \<Rightarrow> (Inl (throwAt f e), b1, tr)
      | (Inr v, b1, tr) \<Rightarrow> (Inr v, b1, tr))"

text \<open>
  The instance that the service passes: \<open>require('fastify')({ logger: true })\<close> of
  services/index.js, on which no plugin is registered.
\<close>

definition plainFastify :: fastify where
  "plainFastify = \<lparr>httpErrors = None\<rparr>"


section \<open>Facts about the breaker\<close>


lemma pruneFailures_fields [simp]:
  "state (pruneFailures b t) = state b"
  "openUntil (pruneFailures b t) = openUntil b"
  "nextProbeAt (pruneFailures b t) = nextProbeAt b"
  "probeInFlight (pruneFailures b t) = probeInFlight b"
  "failureTimes (pruneFailures b t) = filter (\<lambda>x. t - FAILURE_WINDOW_MS \<le> x) (failureTimes b)"
  by (simp_all add: pruneFailures_def)

lemma recordFailure_failureTimes [simp]:
  "failureTimes (recordFailure b t) = filter (\<lambda>x. t - FAILURE_WINDOW_MS \<le> x) (failureTimes b) @ [t]"
  by (simp add: recordFailure_def Let_def)

lemma recordFailure_probe [simp]:
  "nextProbeAt (recordFailure b t) = nextProbeAt b"
  "probeInFlight (recordFailure b t) = probeInFlight b"
  by (simp_all add: recordFailure_def Let_def)

lemma recordFailure_state:
  "state (recordFailure b t) =
     (if state b = CLOSED \<and> FAILURE_THRESHOLD \<le> Suc (length (filter (\<lambda>x. t - FAILURE_WINDOW_MS \<le> x) (failureTimes b)))
      then OPEN else state b)"
  by (simp add: recordFailure_def Let_def)

lemma recordFailure_openUntil:
  "openUntil (recordFailure b t) =
     (if state b = CLOSED \<and> FAILURE_THRESHOLD \<le> Suc (length (filter (\<lambda>x. t - FAILURE_WINDOW_MS \<le> x) (failureTimes b)))
      then t + OPEN_COOLDOWN_MS else openUntil b)"
  by (simp add: recordFailure_def Let_def)




lemma upstream_open_rejects:
  "state b = OPEN \<Longrightarrow> now < openUntil b \<Longrightarrow>
     upstream b now env =
       (Inl (serviceUnavailable ''Upstream circuit open'' (ceilSeconds (openUntil b - now))), b, [])"
  by (simp add: upstream_def gate_def openGate_def)





section \<open>Facts about the retry loop\<close>

lemma tryBlock_thrown:
  assumes "tryBlock b a = (Inl err, b1, told)"
  shows "(told = [] \<and> b1 = b \<and>
           (fetched a = Aborted \<and> err = \<lparr>name = ''AbortError'', status = None\<rparr> \<or>
            fetched a = NetworkFailure \<and> err = \<lparr>name = ''TypeError'', status = None\<rparr> \<or>
            (\<exists>s body. fetched a = Response s body \<and> \<not> ok s \<and>
               err = \<lparr>name = ''Error'', status = Some s\<rparr>))) \<or>
         (\<exists>s. fetched a = Response s None \<and> ok s \<and>
            err = \<lparr>name = ''SyntaxError'', status = None\<rparr> \<and>
            (state b = HALF_OPEN \<and> b1 = recordSuccess b \<and> told = [RecordSuccess] \<or>
             state b \<noteq> HALF_OPEN \<and> b1 = pruneFailures b (nowPrune a) \<and> told = [PruneFailures]))"
  using assms
  by (auto simp: tryBlock_def split: fetched.splits if_splits option.splits)

lemma tryBlock_returned:
  assumes "tryBlock b a = (Inr p, b1, told)"
  shows "\<exists>s. fetched a = Response s (Some p) \<and> ok s \<and>
           (state b = HALF_OPEN \<and> b1 = recordSuccess b \<and> told = [RecordSuccess] \<or>
            state b \<noteq> HALF_OPEN \<and> b1 = pruneFailures b (nowPrune a) \<and> told = [PruneFailures])"
  using assms
  by (auto simp: tryBlock_def split: fetched.splits if_splits option.splits)

lemma transient_thrown:
  assumes "tryBlock b a = (Inl err, b1, told)"
  shows "transient err \<longleftrightarrow>
           fetched a = Aborted \<or> (\<exists>s body. fetched a = Response s body \<and> 500 \<le> s)"
  using tryBlock_thrown [OF assms]
  by (auto simp: transient_def ok_def)

lemma transient_untouched:
  assumes "tryBlock b a = (Inl err, b1, told)" "transient err"
  shows "told = [] \<and> b1 = b"
  using tryBlock_thrown [OF assms(1)] assms(2)
  by (auto simp: transient_def)

lemma state_finalFailure:
  "state (finalFailure b a) = (if state b = CLOSED then state (recordFailure b (nowFailure a)) else OPEN)"
  by (cases "state b") (simp_all add: finalFailure_def Let_def recordFailure_state)

lemma finalFailure_not_half_open: "state (finalFailure b a) \<noteq> HALF_OPEN"
  by (simp add: state_finalFailure recordFailure_state)

lemma finallyBlock_finalFailure [simp]: "finallyBlock (finalFailure b a) = finalFailure b a"
  by (simp add: finallyBlock_def finalFailure_not_half_open)

lemma state_finallyBlock [simp]: "state (finallyBlock b) = state b"
  by (simp add: finallyBlock_def)

text \<open>One iteration of the loop, by the branch taken.\<close>

lemma retryLoop_cases [consumes 1, case_names returned final retry]:
  assumes n: "n \<le> MAX_RETRIES + 1"
  obtains
    (returned) p b1 told where
      "tryBlock b (env n) = (Inr p, b1, told)"
      "retryLoop env n b = (Inr (Some p), finallyBlock b1, Fetch n # told)"
  | (final) err b1 told where
      "tryBlock b (env n) = (Inl err, b1, told)" "\<not> transient err \<or> n > MAX_RETRIES"
      "retryLoop env n b =
         (Inl (serviceUnavailable ''Upstream service unavailable'' (ceilSeconds OPEN_COOLDOWN_MS)),
          finalFailure b1 (env n), Fetch n # told @ [RecordFailure])"
  | (retry) err r b2 tr where
      "tryBlock b (env n) = (Inl err, b, [])" "transient err" "n \<le> MAX_RETRIES"
      "retryLoop env (n + 1) (finallyBlock b) = (r, b2, tr)"
      "retryLoop env n b = (r, b2, Fetch n # Warn n (backoff n) # Sleep (backoff n) # tr)"
proof -
  obtain r b1 told where t: "tryBlock b (env n) = (r, b1, told)"
    by (cases "tryBlock b (env n)") auto
  show thesis
  proof (cases r)
    case (Inr p)
    with t n show thesis
      by (intro returned [of p b1 told]) (simp_all add: retryLoop.simps [of env n b])
  next
    case (Inl err)
    show thesis
    proof (cases "\<not> transient err \<or> n > MAX_RETRIES")
      case True
      with t n Inl show thesis
        by (intro final [of err b1 told]) (auto simp: retryLoop.simps [of env n b])
    next
      case False
      then have tr: "transient err" and le: "n \<le> MAX_RETRIES" by auto
      from t Inl transient_untouched [of b "env n" err b1 told] tr
      have t': "tryBlock b (env n) = (Inl err, b, [])" by simp
      obtain r2 b2 tr2 where rec: "retryLoop env (n + 1) (finallyBlock b) = (r2, b2, tr2)"
        by (cases "retryLoop env (n + 1) (finallyBlock b)") auto
      with t' n tr le show thesis
        by (intro retry [of err r2 b2 tr2]) (simp_all add: retryLoop.simps [of env n b])
    qed
  qed
qed

lemma retryLoop_done: "\<not> n \<le> MAX_RETRIES + 1 \<Longrightarrow> retryLoop env n b = (Inr None, b, [])"
  by (simp add: retryLoop.simps [of env n b])

lemma backoff_values [simp]: "backoff 1 = 100" "backoff (Suc 0) = 100" "backoff 2 = 200"
  by (simp_all add: backoff_def BACKOFF_FACTOR_def)

lemma cooldown_seconds [simp]: "ceilSeconds OPEN_COOLDOWN_MS = 30"
  by (simp add: ceilSeconds_def OPEN_COOLDOWN_MS_def)


lemma gate_passed_upstream: "gate b ts = (None, b1) \<Longrightarrow> upstream b ts env = retryLoop env 1 b1"
  by (simp add: upstream_def)

lemma recordSuccess_finallyBlock [simp]: "recordSuccess (finallyBlock b) = recordSuccess b"
  by (simp add: recordSuccess_def finallyBlock_def)

lemma finallyBlock_recordSuccess [simp]: "finallyBlock (recordSuccess b) = recordSuccess b"
  by (simp add: recordSuccess_def finallyBlock_def)

lemma finallyBlock_idem [simp]: "finallyBlock (finallyBlock b) = finallyBlock b"
  by (simp add: finallyBlock_def)

lemma finallyBlock_not_half_open: "state b \<noteq> HALF_OPEN \<Longrightarrow> finallyBlock b = b"
  by (simp add: finallyBlock_def)

lemma tryBlock_transient:
  assumes "fetched a = Aborted \<or> (\<exists>s body. fetched a = Response s body \<and> 500 \<le> s)"
  shows "\<exists>err. tryBlock b a = (Inl err, b, []) \<and> transient err"
  using assms by (auto simp: tryBlock_def transient_def ok_def)

lemma tryBlock_ok:
  assumes "fetched a = Response s (Some p)" "ok s"
  shows "tryBlock b a =
           (Inr p, if state b = HALF_OPEN then recordSuccess b else pruneFailures b (nowPrune a),
            [if state b = HALF_OPEN then RecordSuccess else PruneFailures])"
  using assms by (simp add: tryBlock_def)

lemma tryBlock_permanent:
  assumes "fetched a = NetworkFailure \<or> (\<exists>s body. fetched a = Response s body \<and> \<not> ok s \<and> s < 500)"
  shows "\<exists>err. tryBlock b a = (Inl err, b, []) \<and> \<not> transient err"
  using assms by (auto simp: tryBlock_def transient_def)

lemma retryLoop_success_now:
  assumes "n \<le> MAX_RETRIES + 1" "fetched (env n) = Response s (Some p)" "ok s"
  shows "retryLoop env n b =
           (Inr (Some p),
            if state b = HALF_OPEN then recordSuccess b else pruneFailures b (nowPrune (env n)),
            [Fetch n, if state b = HALF_OPEN then RecordSuccess else PruneFailures])"
  using assms(1)
proof (cases rule: retryLoop_cases [where b = b and env = env])
  case (returned p' b1 told)
  with tryBlock_ok [OF assms(2,3), of b] show ?thesis
    by (auto simp: finallyBlock_not_half_open)
next
  case (final err b1 told)
  with tryBlock_ok [OF assms(2,3), of b] show ?thesis by simp
next
  case (retry err r b2 tr)
  with tryBlock_ok [OF assms(2,3), of b] show ?thesis by simp
qed

lemma retryLoop_transient_now:
  assumes "n \<le> MAX_RETRIES"
    and "fetched (env n) = Aborted \<or> (\<exists>s body. fetched (env n) = Response s body \<and> 500 \<le> s)"
  shows "retryLoop env n b =
           (case retryLoop env (n + 1) (finallyBlock b) of
              (r, b2, tr) \<Rightarrow> (r, b2, Fetch n # Warn n (backoff n) # Sleep (backoff n) # tr))"
proof -
  from assms(1) have "n \<le> MAX_RETRIES + 1" by simp
  then show ?thesis
  proof (cases rule: retryLoop_cases [where b = b and env = env])
    case (returned p' b1 told)
    with tryBlock_transient [OF assms(2), of b] show ?thesis by auto
  next
    case (final err b1 told)
    with tryBlock_transient [OF assms(2), of b] assms(1) show ?thesis by auto
  next
    case (retry err r b2 tr)
    then show ?thesis by simp
  qed
qed

lemma retryLoop_permanent_now:
  assumes "n \<le> MAX_RETRIES + 1" "tryBlock b (env n) = (Inl err, b1, told)" "\<not> transient err"
  shows "retryLoop env n b =
           (Inl (serviceUnavailable ''Upstream service unavailable'' 30),
            finalFailure b1 (env n), Fetch n # told @ [RecordFailure])"
  using assms(1)
proof (cases rule: retryLoop_cases [where b = b and env = env])
  case (returned p' b1' told')
  with assms show ?thesis by simp
next
  case (final err' b1' told')
  with assms show ?thesis by simp
next
  case (retry err' r b2 tr)
  with assms show ?thesis by simp
qed

text \<open>
  Claim C3. (1) Whatever an attempt throws into the catch block is classified
  transient exactly when the fetch was aborted by the timer or the response had a
  status of 500 or more. (2) An attempt that fails with an error that is not
  transient ends the call at once: the failure is recorded and the error thrown with
  no backoff and no further fetch; so a call admitted by the gate whose first attempt
  meets HTTP 400 (or any status below 500 that is not ok, or a network failure) makes
  one fetch and no retry. (3) A call admitted by the gate whose attempts 1 and 2 fail
  transiently and whose attempt 3 gets an ok response with payload \<open>p\<close> fetches three
  times, sleeps 100 ms after the first attempt and 200 ms after the second, returns
  \<open>p\<close>, and tells the breaker of exactly one success (recordSuccess for a half-open
  probe, pruneFailures otherwise) and of no failure.
\<close>

theorem retry_classification_and_backoff:
  "(tryBlock b a = (Inl err, b1, told) \<longrightarrow>
      (transient err \<longleftrightarrow>
         fetched a = Aborted \<or> (\<exists>s body. fetched a = Response s body \<and> 500 \<le> s))) \<and>
   (n \<le> MAX_RETRIES + 1 \<and> tryBlock b (env n) = (Inl err, b1, told) \<and> \<not> transient err \<longrightarrow>
      retryLoop env n b =
        (Inl (serviceUnavailable ''Upstream service unavailable'' 30),
         finalFailure b1 (env n), Fetch n # told @ [RecordFailure])) \<and>
   (gate b0 ts = (None, b) \<and>
    (fetched (env 1) = NetworkFailure \<or>
     (\<exists>s body. fetched (env 1) = Response s body \<and> \<not> ok s \<and> s < 500)) \<longrightarrow>
      upstream b0 ts env =
        (Inl (serviceUnavailable ''Upstream service unavailable'' 30),
         finalFailure b (env 1), [Fetch 1, RecordFailure])) \<and>
   (gate b0 ts = (None, b) \<and>
    (fetched (env 1) = Aborted \<or> (\<exists>s body. fetched (env 1) = Response s body \<and> 500 \<le> s)) \<and>
    (fetched (env 2) = Aborted \<or> (\<exists>s body. fetched (env 2) = Response s body \<and> 500 \<le> s)) \<and>
    fetched (env 3) = Response s3 (Some p) \<and> ok s3 \<longrightarrow>
      upstream b0 ts env =
        (Inr (Some p),
         if state b = HALF_OPEN then recordSuccess b else pruneFailures b (nowPrune (env 3)),
         [Fetch 1, Warn 1 100, Sleep 100, Fetch 2, Warn 2 200, Sleep 200, Fetch 3,
          if state b = HALF_OPEN then RecordSuccess else PruneFailures]))"
proof (intro conjI impI)
  assume "tryBlock b a = (Inl err, b1, told)"
  then show "transient err \<longleftrightarrow>
      fetched a = Aborted \<or> (\<exists>s body. fetched a = Response s body \<and> 500 \<le> s)"
    by (rule transient_thrown)
next
  assume "n \<le> MAX_RETRIES + 1 \<and> tryBlock b (env n) = (Inl err, b1, told) \<and> \<not> transient err"
  then show "retryLoop env n b =
      (Inl (serviceUnavailable ''Upstream service unavailable'' 30),
       finalFailure b1 (env n), Fetch n # told @ [RecordFailure])"
    using retryLoop_permanent_now by blast
next
  assume a: "gate b0 ts = (None, b) \<and>
    (fetched (env 1) = NetworkFailure \<or>
     (\<exists>s body. fetched (env 1) = Response s body \<and> \<not> ok s \<and> s < 500))"
  then obtain err where "tryBlock b (env 1) = (Inl err, b, [])" "\<not> transient err"
    using tryBlock_permanent [of "env 1" b] by blast
  then have "retryLoop env 1 b =
      (Inl (serviceUnavailable ''Upstream service unavailable'' 30),
       finalFailure b (env 1), Fetch 1 # [] @ [RecordFailure])"
    by (intro retryLoop_permanent_now) (simp_all add: MAX_RETRIES_def)
  with a show "upstream b0 ts env =
      (Inl (serviceUnavailable ''Upstream service unavailable'' 30),
       finalFailure b (env 1), [Fetch 1, RecordFailure])"
    by (simp add: gate_passed_upstream)
next
  assume a: "gate b0 ts = (None, b) \<and>
    (fetched (env 1) = Aborted \<or> (\<exists>s body. fetched (env 1) = Response s body \<and> 500 \<le> s)) \<and>
    (fetched (env 2) = Aborted \<or> (\<exists>s body. fetched (env 2) = Response s body \<and> 500 \<le> s)) \<and>
    fetched (env 3) = Response s3 (Some p) \<and> ok s3"
  let ?b' = "finallyBlock b"
  have third: "retryLoop env 3 ?b' =
      (Inr (Some p),
       if state b = HALF_OPEN then recordSuccess b else pruneFailures b (nowPrune (env 3)),
       [Fetch 3, if state b = HALF_OPEN then RecordSuccess else PruneFailures])"
    using a retryLoop_success_now [of 3 env s3 p ?b']
    by (auto simp: MAX_RETRIES_def finallyBlock_not_half_open)
  have second: "retryLoop env 2 ?b' =
      (case retryLoop env 3 ?b' of
         (r, b2, tr) \<Rightarrow> (r, b2, Fetch 2 # Warn 2 200 # Sleep 200 # tr))"
    using a retryLoop_transient_now [of 2 env ?b'] by (simp add: MAX_RETRIES_def)
  have first: "retryLoop env 1 b =
      (case retryLoop env 2 ?b' of
         (r, b2, tr) \<Rightarrow> (r, b2, Fetch 1 # Warn 1 100 # Sleep 100 # tr))"
    using a retryLoop_transient_now [of 1 env b, unfolded one_add_one]
    by (simp add: MAX_RETRIES_def)
  from a have "upstream b0 ts env = retryLoop env 1 b"
    using gate_passed_upstream by blast
  then show "upstream b0 ts env =
      (Inr (Some p),
       if state b = HALF_OPEN then recordSuccess b else pruneFailures b (nowPrune (env 3)),
       [Fetch 1, Warn 1 100, Sleep 100, Fetch 2, Warn 2 200, Sleep 200, Fetch 3,
        if state b = HALF_OPEN then RecordSuccess else PruneFailures])"
    unfolding first second third by (simp only: prod.case)
qed


lemma gate_initial [simp]: "gate initial ts = (None, initial)"
  by (simp add: gate_def openGate_def halfOpenGate_def initial_def)

theorem retry_classification_and_backoff_witness:
  "gate initial 0 = (None, initial) \<and>
   upstream initial 0
     (scripted [Response 503 None, Aborted, Response 200 (Some (JNum 7))] [20, 2130, 2350]) =
     (Inr (Some (JNum 7)), initial,
      [Fetch 1, Warn 1 100, Sleep 100, Fetch 2, Warn 2 200, Sleep 200, Fetch 3, PruneFailures]) \<and>
   upstream initial 0 (scripted [Response 400 None] [20]) =
     (Inl (serviceUnavailable ''Upstream service unavailable'' 30),
      initial\<lparr>failureTimes := [20]\<rparr>, [Fetch 1, RecordFailure]) \<and>
   tryBlock initial (scripted [Response 503 None] [20] 1) =
     (Inl \<lparr>name = ''Error'', status = Some 503\<rparr>, initial, []) \<and>
   transient \<lparr>name = ''Error'', status = Some 503\<rparr>"
proof -
  let ?env = "scripted [Response 503 None, Aborted, Response 200 (Some (JNum 7))] [20, 2130, 2350]"
  let ?env400 = "scripted [Response 400 None] [20]"
  let ?err = "\<lparr>name = ''Error'', status = Some 503\<rparr>"
  have f: "fetched (?env 1) = Response 503 None" "fetched (?env 2) = Aborted"
    "fetched (?env 3) = Response 200 (Some (JNum 7))" "nowPrune (?env 3) = 2350"
    "fetched (?env400 1) = Response 400 None" "nowFailure (?env400 1) = 20"
    by (simp_all add: scripted_def)
  have t: "tryBlock initial (scripted [Response 503 None] [20] 1) = (Inl ?err, initial, [])"
    by (simp add: tryBlock_def scripted_def ok_def)
  have three: "upstream initial 0 ?env =
      (Inr (Some (JNum 7)),
       if state initial = HALF_OPEN then recordSuccess initial
       else pruneFailures initial (nowPrune (?env 3)),
       [Fetch 1, Warn 1 100, Sleep 100, Fetch 2, Warn 2 200, Sleep 200, Fetch 3,
        if state initial = HALF_OPEN then RecordSuccess else PruneFailures])"
    by (rule retry_classification_and_backoff
          [where ?b0.0 = initial and ts = 0 and b = initial and env = ?env and ?s3.0 = 200
             and p = "JNum 7", THEN conjunct2, THEN conjunct2, THEN conjunct2, THEN mp])
       (simp add: scripted_def ok_def)
  have one: "upstream initial 0 ?env400 =
      (Inl (serviceUnavailable ''Upstream service unavailable'' 30),
       finalFailure initial (?env400 1), [Fetch 1, RecordFailure])"
    by (rule retry_classification_and_backoff
          [where ?b0.0 = initial and ts = 0 and b = initial and env = ?env400,
             THEN conjunct2, THEN conjunct2, THEN conjunct1, THEN mp])
       (simp add: scripted_def ok_def)
  have cls: "transient ?err"
    using retry_classification_and_backoff
      [where b = initial and a = "scripted [Response 503 None] [20] 1" and err = ?err
         and ?b1.0 = initial and told = "[]", THEN conjunct1, THEN mp, OF t]
    by (simp add: scripted_def)
  have st: "state initial = CLOSED" by (simp add: initial_def)
  have p: "pruneFailures initial 2350 = initial"
    by (simp add: pruneFailures_def initial_def)
  have ff: "finalFailure initial (?env400 1) = initial\<lparr>failureTimes := [20]\<rparr>"
    by (simp add: finalFailure_def recordFailure_def pruneFailures_def Let_def scripted_def
        initial_def FAILURE_THRESHOLD_def)
  show ?thesis
    using three one cls t unfolding ff f p by (simp add: st)
qed

lemma retryLoop_induct [case_names step]:
  assumes step: "\<And>n b. (\<And>b'. n \<le> MAX_RETRIES \<Longrightarrow> P (n + 1) b') \<Longrightarrow> P n b"
  shows "P n b"
proof -
  have "\<forall>b. P n b" if "k = MAX_RETRIES + 1 - n" for k n
    using that
  proof (induction k arbitrary: n)
    case 0
    show ?case
    proof
      fix b
      show "P n b"
      proof (rule step)
        fix b'
        assume "n \<le> MAX_RETRIES"
        with 0 show "P (n + 1) b'" by simp
      qed
    qed
  next
    case (Suc k)
    show ?case
    proof
      fix b
      show "P n b"
      proof (rule step)
        fix b'
        from Suc.prems have "k = MAX_RETRIES + 1 - (n + 1)" by simp
        from Suc.IH [OF this] show "P (n + 1) b'" by simp
      qed
    qed
  qed
  then show ?thesis by simp
qed

lemma recordSuccess_initial [simp]: "recordSuccess b = initial"
  by (cases b) (simp add: recordSuccess_def initial_def)

lemma finallyBlock_initial [simp]: "finallyBlock initial = initial"
  by (simp add: finallyBlock_def initial_def)

lemma retryLoop_error:
  "retryLoop env n b = (Inl e, b', tr) \<Longrightarrow>
     e = serviceUnavailable ''Upstream service unavailable'' 30"
proof (induction n b arbitrary: tr rule: retryLoop_induct)
  case (step n b)
  show ?case
  proof (cases "n \<le> MAX_RETRIES + 1")
    case False
    with step.prems show ?thesis by (simp add: retryLoop_done)
  next
    case True
    then show ?thesis
    proof (cases rule: retryLoop_cases [where b = b and env = env])
      case (returned p b1 told)
      with step.prems show ?thesis by simp
    next
      case (final err b1 told)
      with step.prems show ?thesis by simp
    next
      case (retry err r b2 tr2)
      with step.prems step.IH [of "finallyBlock b" tr2] show ?thesis by simp
    qed
  qed
qed

lemma retryLoop_probe_returned:
  "state b = HALF_OPEN \<Longrightarrow> retryLoop env n b = (Inr (Some p), b', tr) \<Longrightarrow>
     b' = initial \<and> filter (\<lambda>x. x \<in> {RecordSuccess, PruneFailures, RecordFailure}) tr = [RecordSuccess]"
proof (induction n b arbitrary: tr rule: retryLoop_induct)
  case (step n b)
  show ?case
  proof (cases "n \<le> MAX_RETRIES + 1")
    case False
    with step.prems show ?thesis by (simp add: retryLoop_done)
  next
    case True
    then show ?thesis
    proof (cases rule: retryLoop_cases [where b = b and env = env])
      case (returned p1 b1 told)
      with step.prems tryBlock_returned [OF returned(1)] show ?thesis by auto
    next
      case (final err b1 told)
      with step.prems show ?thesis by simp
    next
      case (retry err r b2 tr2)
      with step.prems step.IH [of "finallyBlock b" tr2] show ?thesis by auto
    qed
  qed
qed

lemma finalFailure_half_open:
  "state b = HALF_OPEN \<Longrightarrow>
     state (finalFailure b a) = OPEN \<and>
     openUntil (finalFailure b a) = nowReopen a + OPEN_COOLDOWN_MS \<and>
     \<not> probeInFlight (finalFailure b a)"
  by (simp add: finalFailure_def Let_def recordFailure_state)

lemma retryLoop_probe_failed:
  "state b = HALF_OPEN \<Longrightarrow> retryLoop env n b = (Inl e, b', tr) \<Longrightarrow> RecordSuccess \<notin> set tr \<Longrightarrow>
     state b' = OPEN \<and> \<not> probeInFlight b' \<and>
     (\<exists>k tr0. n \<le> k \<and> k \<le> MAX_RETRIES + 1 \<and> tr = tr0 @ [Fetch k, RecordFailure] \<and>
        openUntil b' = nowReopen (env k) + OPEN_COOLDOWN_MS)"
proof (induction n b arbitrary: tr rule: retryLoop_induct)
  case (step n b)
  show ?case
  proof (cases "n \<le> MAX_RETRIES + 1")
    case False
    with step.prems show ?thesis by (simp add: retryLoop_done)
  next
    case True
    then show ?thesis
    proof (cases rule: retryLoop_cases [where b = b and env = env])
      case (returned p1 b1 told)
      with step.prems show ?thesis by simp
    next
      case (final err b1 told)
      with step.prems tryBlock_thrown [OF final(1)]
      have same: "told = []" "b1 = b" by auto
      with final step.prems have "b' = finalFailure b (env n)" "tr = [] @ [Fetch n, RecordFailure]"
        by simp_all
      with finalFailure_half_open [OF step.prems(1), of "env n"] True show ?thesis
        by blast
    next
      case (retry err r b2 tr2)
      with step.prems have rec: "retryLoop env (n + 1) (finallyBlock b) = (Inl e, b', tr2)"
        and tr: "tr = Fetch n # Warn n (backoff n) # Sleep (backoff n) # tr2"
        by simp_all
      from step.IH [OF retry(3) _ rec] step.prems tr
      obtain k tr0 where "state b' = OPEN" "\<not> probeInFlight b'" "n + 1 \<le> k" "k \<le> MAX_RETRIES + 1"
        "tr2 = tr0 @ [Fetch k, RecordFailure]"
        "openUntil b' = nowReopen (env k) + OPEN_COOLDOWN_MS"
        by auto
      with tr show ?thesis
        by (intro conjI exI [of _ k] exI [of _ "Fetch n # Warn n (backoff n) # Sleep (backoff n) # tr0"])
           simp_all
    qed
  qed
qed


lemmas constants =
  MAX_RETRIES_def BACKOFF_FACTOR_def FAILURE_WINDOW_MS_def FAILURE_THRESHOLD_def
  OPEN_COOLDOWN_MS_def HALF_OPEN_PROBE_INTERVAL_MS_def

text \<open>The loop unrolled: the three attempts that \<open>MAX_RETRIES = 2\<close> allows.\<close>

lemma retryLoop_third:
  "retryLoop env 3 b =
     (case tryBlock b (env 3) of
        (Inr payload, b1, told) \<Rightarrow> (Inr (Some payload), finallyBlock b1, Fetch 3 # told)
      | (Inl err, b1, told) \<Rightarrow>
          (Inl (serviceUnavailable ''Upstream service unavailable'' 30),
           finalFailure b1 (env 3), Fetch 3 # told @ [RecordFailure]))"
  by (simp add: retryLoop.simps [of env 3 b] MAX_RETRIES_def split: prod.splits sum.splits)

lemma retryLoop_second:
  "retryLoop env 2 b =
     (case tryBlock b (env 2) of
        (Inr payload, b1, told) \<Rightarrow> (Inr (Some payload), finallyBlock b1, Fetch 2 # told)
      | (Inl err, b1, told) \<Rightarrow>
          if \<not> transient err then
            (Inl (serviceUnavailable ''Upstream service unavailable'' 30),
             finalFailure b1 (env 2), Fetch 2 # told @ [RecordFailure])
          else
            (case retryLoop env 3 (finallyBlock b1) of
               (r, b2, tr) \<Rightarrow> (r, b2, Fetch 2 # told @ [Warn 2 200, Sleep 200] @ tr)))"
  by (simp add: retryLoop.simps [of env 2 b] MAX_RETRIES_def split: prod.splits sum.splits)

lemma retryLoop_first:
  "retryLoop env (Suc 0) b =
     (case tryBlock b (env (Suc 0)) of
        (Inr payload, b1, told) \<Rightarrow> (Inr (Some payload), finallyBlock b1, Fetch (Suc 0) # told)
      | (Inl err, b1, told) \<Rightarrow>
          if \<not> transient err then
            (Inl (serviceUnavailable ''Upstream service unavailable'' 30),
             finalFailure b1 (env (Suc 0)), Fetch (Suc 0) # told @ [RecordFailure])
          else
            (case retryLoop env 2 (finallyBlock b1) of
               (r, b2, tr) \<Rightarrow>
                 (r, b2, Fetch (Suc 0) # told @ [Warn (Suc 0) 100, Sleep 100] @ tr)))"
  by (simp add: retryLoop.simps [of env "Suc 0" b] MAX_RETRIES_def numeral_2_eq_2
      split: prod.splits sum.splits)

lemmas run_call =
  retryLoop_first retryLoop_second retryLoop_third tryBlock_def finalFailure_def
  finallyBlock_def recordFailure_def recordSuccess_def pruneFailures_def scripted_def
  transient_def ok_def initial_def Let_def constants

lemma tripped_breaker:
  "foldl recordFailure initial [0, 10, 20] =
     \<lparr>state = OPEN, failureTimes = [0, 10, 20], openUntil = 30020, nextProbeAt = 0,
      probeInFlight = False\<rparr>"
  by (simp add: recordFailure_def pruneFailures_def initial_def Let_def constants)

lemma tripped_gate:
  "gate (foldl recordFailure initial [0, 10, 20]) 30020 =
     (None, \<lparr>state = HALF_OPEN, failureTimes = [0, 10, 20], openUntil = 30020,
             nextProbeAt = 35020, probeInFlight = True\<rparr>)"
  unfolding tripped_breaker
  by (simp add: gate_def openGate_def halfOpenGate_def constants)

text \<open>
  Claim C2, as the specification states it: a call that arrives on an OPEN breaker at
  \<open>now \<ge> openUntil\<close> is itself rejected. The code puts \<open>nextProbeAt = ts\<close> when it
  leaves OPEN, so the half-open test that follows lets this very call through. The
  breaker opened by failures at 0, 10 and 20 ms has \<open>openUntil = 30020\<close>; the call at
  30020 passes the gate as the probe and fetches.
\<close>

theorem cooldown_call_rejected_counterexample:
  "state (foldl recordFailure initial [0, 10, 20]) = OPEN \<and>
   openUntil (foldl recordFailure initial [0, 10, 20]) \<le> 30020 \<and>
   gate (foldl recordFailure initial [0, 10, 20]) 30020 =
     (None, \<lparr>state = HALF_OPEN, failureTimes = [0, 10, 20], openUntil = 30020,
             nextProbeAt = 35020, probeInFlight = True\<rparr>) \<and>
   upstream (foldl recordFailure initial [0, 10, 20]) 30020
       (scripted [Response 200 (Some JNull)] [30040]) =
     (Inr (Some JNull), initial, [Fetch 1, RecordSuccess])"
proof -
  have "upstream (foldl recordFailure initial [0, 10, 20]) 30020
       (scripted [Response 200 (Some JNull)] [30040]) =
     (Inr (Some JNull), initial, [Fetch 1, RecordSuccess])"
    unfolding upstream_def tripped_gate by (simp add: run_call)
  then show ?thesis
    using tripped_gate unfolding tripped_breaker by simp
qed

text \<open>
  Claim C2, amended. When the breaker is OPEN with no probe in flight and a call
  arrives at \<open>now \<ge> openUntil\<close>, the call moves the breaker to HALF_OPEN and is itself
  the probe: it is not rejected, it sets \<open>probeInFlight\<close> and
  \<open>nextProbeAt = now + 5000\<close>, and it goes on to the network (its trace starts with
  the first fetch).
\<close>

theorem cooldown_call_is_probe:
  assumes "state b = OPEN" and "\<not> probeInFlight b" and "openUntil b \<le> now"
  shows "gate b now =
           (None, b\<lparr>state := HALF_OPEN, nextProbeAt := now + 5000, probeInFlight := True\<rparr>) \<and>
         (\<exists>r b' tr. upstream b now env = (r, b', Fetch 1 # tr))"
proof -
  let ?probe = "b\<lparr>state := HALF_OPEN, nextProbeAt := now + 5000, probeInFlight := True\<rparr>"
  have g: "gate b now = (None, ?probe)"
    using assms by (simp add: gate_def openGate_def halfOpenGate_def constants)
  obtain r b' tr where r: "retryLoop env 1 ?probe = (r, b', tr)"
    by (cases "retryLoop env 1 ?probe") auto
  have "1 \<le> MAX_RETRIES + 1" by simp
  then have "\<exists>tr'. tr = Fetch 1 # tr'"
  proof (cases rule: retryLoop_cases [where b = ?probe and env = env])
    case (returned p b1 told)
    with r show ?thesis by simp
  next
    case (final err b1 told)
    with r show ?thesis by simp
  next
    case (retry err r b2 tr)
    with r show ?thesis by simp
  qed
  with g r show ?thesis
    by (auto simp: upstream_def)
qed

theorem cooldown_call_is_probe_witness:
  "state (foldl recordFailure initial [0, 10, 20]) = OPEN \<and>
   \<not> probeInFlight (foldl recordFailure initial [0, 10, 20]) \<and>
   openUntil (foldl recordFailure initial [0, 10, 20]) \<le> 31000 \<and>
   gate (foldl recordFailure initial [0, 10, 20]) 31000 =
     (None, \<lparr>state = HALF_OPEN, failureTimes = [0, 10, 20], openUntil = 30020,
             nextProbeAt = 36000, probeInFlight = True\<rparr>)"
proof -
  let ?b = "foldl recordFailure initial [0, 10, 20]"
  have h: "state ?b = OPEN" "\<not> probeInFlight ?b" "openUntil ?b \<le> 31000"
    unfolding tripped_breaker by simp_all
  from cooldown_call_is_probe [OF h, of "scripted [] []"]
  have "gate ?b 31000 =
      (None, ?b\<lparr>state := HALF_OPEN, nextProbeAt := 31000 + 5000, probeInFlight := True\<rparr>)"
    by simp
  then have "gate ?b 31000 =
      (None, \<lparr>state = HALF_OPEN, failureTimes = [0, 10, 20], openUntil = 30020,
              nextProbeAt = 36000, probeInFlight = True\<rparr>)"
    unfolding tripped_breaker by simp
  with h show ?thesis by simp
qed


text \<open>
  Claim C4. (1) An ok response with a JSON body met while the breaker is HALF_OPEN
  makes the try block call recordSuccess: the failure history is emptied, openUntil
  and nextProbeAt are 0, probeInFlight is false and the state is CLOSED. (2) The final
  failure branch of the catch block, run while the breaker is HALF_OPEN, leaves the
  breaker OPEN with \<open>openUntil = now() + 30000\<close> and probeInFlight false. (3) So a call
  admitted as the half-open probe that returns a payload leaves the breaker in its
  initial, CLOSED value, having told it of one success and nothing else; and (4) a
  probe that throws without the breaker having been told of a success leaves it OPEN,
  probeInFlight false, with openUntil 30000 ms after the clock reading of the attempt
  \<open>k\<close> whose fetch was the last.
\<close>

theorem half_open_probe_outcome:
  "(state b = HALF_OPEN \<and> fetched a = Response s (Some p) \<and> ok s \<longrightarrow>
      tryBlock b a =
        (Inr p, \<lparr>state = CLOSED, failureTimes = [], openUntil = 0, nextProbeAt = 0,
                 probeInFlight = False\<rparr>, [RecordSuccess])) \<and>
   (state b = HALF_OPEN \<longrightarrow>
      state (finalFailure b a) = OPEN \<and>
      openUntil (finalFailure b a) = nowReopen a + 30000 \<and>
      \<not> probeInFlight (finalFailure b a)) \<and>
   (gate b0 ts = (None, b) \<and> state b = HALF_OPEN \<and>
    upstream b0 ts env = (Inr (Some p), b', tr) \<longrightarrow>
      b' = \<lparr>state = CLOSED, failureTimes = [], openUntil = 0, nextProbeAt = 0,
             probeInFlight = False\<rparr> \<and>
      filter (\<lambda>x. x \<in> {RecordSuccess, PruneFailures, RecordFailure}) tr = [RecordSuccess]) \<and>
   (gate b0 ts = (None, b) \<and> state b = HALF_OPEN \<and>
    upstream b0 ts env = (Inl e, b', tr) \<and> RecordSuccess \<notin> set tr \<longrightarrow>
      state b' = OPEN \<and> \<not> probeInFlight b' \<and>
      (\<exists>k tr0. 1 \<le> k \<and> k \<le> MAX_RETRIES + 1 \<and> tr = tr0 @ [Fetch k, RecordFailure] \<and>
         openUntil b' = nowReopen (env k) + 30000))"
proof (intro conjI impI)
  assume "state b = HALF_OPEN \<and> fetched a = Response s (Some p) \<and> ok s"
  then show "tryBlock b a =
      (Inr p, \<lparr>state = CLOSED, failureTimes = [], openUntil = 0, nextProbeAt = 0,
               probeInFlight = False\<rparr>, [RecordSuccess])"
    using tryBlock_ok [of a s p b] by (simp add: initial_def)
next
  assume h: "state b = HALF_OPEN"
  from finalFailure_half_open [OF h, of a]
  show "state (finalFailure b a) = OPEN" "openUntil (finalFailure b a) = nowReopen a + 30000"
    "\<not> probeInFlight (finalFailure b a)"
    by (simp_all add: constants)
next
  assume a: "gate b0 ts = (None, b) \<and> state b = HALF_OPEN \<and>
    upstream b0 ts env = (Inr (Some p), b', tr)"
  then have "retryLoop env 1 b = (Inr (Some p), b', tr)"
    using gate_passed_upstream [of b0 ts b env] by simp
  with a retryLoop_probe_returned [of b env 1 p b' tr]
  show "b' = \<lparr>state = CLOSED, failureTimes = [], openUntil = 0, nextProbeAt = 0,
             probeInFlight = False\<rparr>"
    "filter (\<lambda>x. x \<in> {RecordSuccess, PruneFailures, RecordFailure}) tr = [RecordSuccess]"
    by (simp_all add: initial_def)
next
  assume a: "gate b0 ts = (None, b) \<and> state b = HALF_OPEN \<and>
    upstream b0 ts env = (Inl e, b', tr) \<and> RecordSuccess \<notin> set tr"
  then have "retryLoop env 1 b = (Inl e, b', tr)"
    using gate_passed_upstream [of b0 ts b env] by simp
  with a retryLoop_probe_failed [of b env 1 e b' tr]
  show "state b' = OPEN" "\<not> probeInFlight b'"
    "\<exists>k tr0. 1 \<le> k \<and> k \<le> MAX_RETRIES + 1 \<and> tr = tr0 @ [Fetch k, RecordFailure] \<and>
       openUntil b' = nowReopen (env k) + 30000"
    by (simp_all add: constants)
qed

theorem half_open_probe_outcome_witness:
  "gate (foldl recordFailure initial [0, 10, 20]) 30020 =
     (None, \<lparr>state = HALF_OPEN, failureTimes = [0, 10, 20], openUntil = 30020,
             nextProbeAt = 35020, probeInFlight = True\<rparr>) \<and>
   upstream (foldl recordFailure initial [0, 10, 20]) 30020
       (scripted [Response 200 (Some (JStr ''ok''))] [30040]) =
     (Inr (Some (JStr ''ok'')),
      \<lparr>state = CLOSED, failureTimes = [], openUntil = 0, nextProbeAt = 0,
        probeInFlight = False\<rparr>, [Fetch 1, RecordSuccess]) \<and>
   upstream (foldl recordFailure initial [0, 10, 20]) 30020
       (scripted [Response 400 None] [30040]) =
     (Inl (serviceUnavailable ''Upstream service unavailable'' 30),
      \<lparr>state = OPEN, failureTimes = [30040], openUntil = 60040, nextProbeAt = 35020,
        probeInFlight = False\<rparr>, [Fetch 1, RecordFailure])"
proof -
  let ?b0 = "foldl recordFailure initial [0, 10, 20]"
  let ?probe = "\<lparr>state = HALF_OPEN, failureTimes = [0, 10, 20], openUntil = 30020,
             nextProbeAt = 35020, probeInFlight = True\<rparr>"
  let ?yes = "scripted [Response 200 (Some (JStr ''ok''))] [30040]"
  let ?no = "scripted [Response 400 None] [30040]"
  let ?e = "serviceUnavailable ''Upstream service unavailable'' 30"
  obtain b1 tr1 where yes: "upstream ?b0 30020 ?yes = (Inr (Some (JStr ''ok'')), b1, tr1)"
    and tr1: "tr1 = [Fetch 1, RecordSuccess]"
    unfolding upstream_def tripped_gate by (simp add: run_call)
  obtain b2 where no: "upstream ?b0 30020 ?no = (Inl ?e, b2, [Fetch 1, RecordFailure])"
    and b2: "failureTimes b2 = [30040]" "nextProbeAt b2 = 35020"
    unfolding upstream_def tripped_gate by (simp add: run_call)
  have closed: "b1 = \<lparr>state = CLOSED, failureTimes = [], openUntil = 0, nextProbeAt = 0,
        probeInFlight = False\<rparr>"
    using half_open_probe_outcome [where ?b0.0 = ?b0 and ts = 30020 and b = ?probe
        and env = ?yes and p = "JStr ''ok''" and b' = b1 and tr = tr1] tripped_gate yes
    by simp
  have "state b2 = OPEN \<and> \<not> probeInFlight b2 \<and>
      (\<exists>k tr0. 1 \<le> k \<and> k \<le> MAX_RETRIES + 1 \<and>
         [Fetch 1, RecordFailure] = tr0 @ [Fetch k, RecordFailure] \<and>
         openUntil b2 = nowReopen (?no k) + 30000)"
    using half_open_probe_outcome [where ?b0.0 = ?b0 and ts = 30020 and b = ?probe
        and env = ?no and e = ?e and b' = b2 and tr = "[Fetch 1, RecordFailure]"] tripped_gate no
    by simp
  then obtain k tr0 where "state b2 = OPEN" "\<not> probeInFlight b2"
    "[Fetch 1, RecordFailure] = tr0 @ [Fetch k, RecordFailure]"
    "openUntil b2 = nowReopen (?no k) + 30000"
    by blast
  then have "state b2 = OPEN" "\<not> probeInFlight b2" "openUntil b2 = 60040"
    by (simp_all add: scripted_def)
  with b2 have opened: "b2 = \<lparr>state = OPEN, failureTimes = [30040], openUntil = 60040,
      nextProbeAt = 35020, probeInFlight = False\<rparr>"
    by (cases b2) simp
  show ?thesis
    using tripped_gate yes no unfolding closed opened tr1 by simp
qed

lemma gate_rejection:
  "gate b ts = (Some e, b1) \<Longrightarrow>
     (\<exists>n. e = serviceUnavailable ''Upstream circuit open'' n) \<or>
     (\<exists>n. e = serviceUnavailable ''Upstream circuit half-open'' n)"
  by (auto simp: gate_def openGate_def halfOpenGate_def split: if_splits sum.splits)

text \<open>
  Every error that \<open>upstream\<close> hands to a throw site asks for the service-unavailable
  error with a Retry-After; after the gate, that is on a final failure (permanent or
  after the last retry, in any state of the breaker), the Retry-After is 30, the
  ceiling of 30000 / 1000, whatever is left of the cooldown.
\<close>

lemma upstream_error:
  assumes "upstream b ts env = (Inl e, b', tr)"
  shows "(\<exists>msg n. e = serviceUnavailable msg n) \<and>
         (fst (gate b ts) = None \<or> tr \<noteq> [] \<longrightarrow>
            e = serviceUnavailable ''Upstream service unavailable'' \<lceil>30000 / 1000 :: real\<rceil>)"
proof (cases "gate b ts")
  case (Pair r b1)
  show ?thesis
  proof (cases r)
    case None
    with Pair assms have "retryLoop env 1 b1 = (Inl e, b', tr)"
      by (simp add: upstream_def)
    then have "e = serviceUnavailable ''Upstream service unavailable'' 30"
      by (rule retryLoop_error)
    then show ?thesis by auto
  next
    case (Some e')
    with Pair assms have "e = e'" "tr = []"
      by (simp_all add: upstream_def)
    with gate_rejection [of b ts e' b1] Pair Some show ?thesis
      by auto
  qed
qed

text \<open>
  On an instance whose helper builds errors of status 503, every error thrown has
  status 503 and a Retry-After header, 30 on a final failure.
\<close>

lemma helper_errors_are_503:
  assumes "httpErrors f = Some build" and "\<And>msg. statusCode (build msg) = 503"
    and "upstreamWith f b ts env = (Inl x, b', tr)"
  shows "\<exists>e. x = HttpError e \<and> statusCode e = 503 \<and>
           (\<exists>n. headers e = [(''Retry-After'', n)]) \<and>
           (tr \<noteq> [] \<longrightarrow> headers e = [(''Retry-After'', 30)])"
proof -
  from assms(3) obtain e where run: "upstream b ts env = (Inl e, b', tr)"
    and x: "x = throwAt f e"
    by (auto simp: upstreamWith_def split: prod.splits sum.splits)
  from upstream_error [OF run] assms(1,2) x show ?thesis
    by (auto simp: throwAt_def serviceUnavailable_def)
qed

text \<open>
  On an instance with no \<open>httpErrors\<close> every throw site raises the TypeError: no call
  throws an error of status 503, and none carries a Retry-After.
\<close>

lemma plain_fastify_errors:
  "upstreamWith plainFastify b ts env = (Inl x, b', tr) \<Longrightarrow> x = UndefinedHelper"
  by (auto simp: upstreamWith_def throwAt_def plainFastify_def split: prod.splits sum.splits)

lemma upstreamWith_state:
  "snd (upstreamWith f b ts env) = snd (upstream b ts env)"
  by (auto simp: upstreamWith_def split: prod.splits sum.splits)

text \<open>
  Claim C10 does not hold of the service as it is wired. The code means every error
  to be the 503 error of \<open>fastify.httpErrors.serviceUnavailable\<close> with a Retry-After,
  but the instance that services/index.js creates and passes has no \<open>httpErrors\<close>. A
  call on the initial breaker whose first attempt meets HTTP 400 records the failure
  and then, at the throw site, raises the TypeError of reading \<open>serviceUnavailable\<close> of
  undefined: the caller gets an error with no status 503 and no Retry-After. The same
  happens at the two rejections of the gate.
\<close>

theorem plain_fastify_throws_type_error:
  "upstreamWith plainFastify initial 0 (scripted [Response 400 None] [20]) =
     (Inl UndefinedHelper, initial\<lparr>failureTimes := [20]\<rparr>, [Fetch 1, RecordFailure]) \<and>
   upstreamWith plainFastify (foldl recordFailure initial [0, 10, 20]) 25000 (scripted [] []) =
     (Inl UndefinedHelper, foldl recordFailure initial [0, 10, 20], [])"
proof -
  have "upstream initial 0 (scripted [Response 400 None] [20]) =
      (Inl (serviceUnavailable ''Upstream service unavailable'' 30),
       initial\<lparr>failureTimes := [20]\<rparr>, [Fetch 1, RecordFailure])"
    unfolding upstream_def gate_initial by (simp add: run_call)
  moreover have "state (foldl recordFailure initial [0, 10, 20]) = OPEN"
    "25000 < openUntil (foldl recordFailure initial [0, 10, 20])"
    unfolding tripped_breaker by simp_all
  then have "upstream (foldl recordFailure initial [0, 10, 20]) 25000 (scripted [] []) =
      (Inl (serviceUnavailable ''Upstream circuit open''
              (ceilSeconds (openUntil (foldl recordFailure initial [0, 10, 20]) - 25000))),
       foldl recordFailure initial [0, 10, 20], [])"
    by (rule upstream_open_rejects)
  ultimately show ?thesis
    unfolding upstreamWith_def by (simp add: throwAt_def plainFastify_def)
qed

text \<open>
  Claim C8 does not hold of the code. The success branch tells the breaker of the
  success before \<open>return await res.json()\<close> has parsed the body; when the body of an ok
  response is not JSON (a 204 No Content, say) the rejection of \<open>res.json()\<close> lands in
  the catch block of the same attempt, is classified permanent, and recordFailure
  runs too. Here the half-open probe of the breaker opened by failures at 0, 10 and
  20 ms meets a 204: the breaker is told of a success (it closes and forgets its
  history) and then of a failure (one timestamp is appended), and the call throws.
\<close>

theorem unparsable_body_reports_success_and_failure:
  "upstream (foldl recordFailure initial [0, 10, 20]) 30020
       (scripted [Response 204 None] [30040]) =
     (Inl (serviceUnavailable ''Upstream service unavailable'' 30),
      \<lparr>state = CLOSED, failureTimes = [30040], openUntil = 0, nextProbeAt = 0,
        probeInFlight = False\<rparr>,
      [Fetch 1, RecordSuccess, RecordFailure])"
  unfolding upstream_def tripped_gate by (simp add: run_call)

text \<open>
  What does hold: when no ok response has a body that fails to parse, a call that
  passes the gate tells the breaker of exactly one outcome, a success when it returns
  and a failure when it throws, however many attempts it made.
\<close>

lemma retryLoop_one_outcome:
  assumes parse: "\<And>k s. ok s \<Longrightarrow> fetched (env k) \<noteq> Response s None"
  shows "n \<le> MAX_RETRIES + 1 \<Longrightarrow> retryLoop env n b = (r, b', tr) \<Longrightarrow>
     (\<exists>p. r = Inr (Some p) \<and> (reported tr = [RecordSuccess] \<or> reported tr = [PruneFailures])) \<or>
     (\<exists>e. r = Inl e \<and> reported tr = [RecordFailure])"
proof (induction n b arbitrary: tr rule: retryLoop_induct)
  case (step n b)
  from step.prems(1) show ?case
  proof (cases rule: retryLoop_cases [where b = b and env = env])
    case (returned p b1 t)
    with step.prems tryBlock_returned [OF returned(1)] show ?thesis
      by (auto simp: reported_def)
  next
    case (final err b1 t)
    with tryBlock_thrown [OF final(1)] parse have "t = []" by auto
    with final step.prems show ?thesis by (simp add: reported_def)
  next
    case (retry err r2 b2 tr2)
    with step.prems step.IH [of "finallyBlock b" tr2] show ?thesis
      by (auto simp: reported_def)
  qed
qed

lemma exhausted_retries_one_failure:
  "upstream initial 0 (scripted [Response 503 None, Aborted, Aborted] [20, 2130, 4350]) =
     (Inl (serviceUnavailable ''Upstream service unavailable'' 30),
      initial\<lparr>failureTimes := [4350]\<rparr>,
      [Fetch 1, Warn 1 100, Sleep 100, Fetch 2, Warn 2 200, Sleep 200, Fetch 3, RecordFailure])"
  unfolding upstream_def gate_initial by (simp add: run_call)

section \<open>Facts about the fan-out\<close>

lemma chunk_count_step:
  fixes i n :: nat
  assumes "i < n"
  shows "(n - i + 49) div 50 = Suc ((n - (i + 50) + 49) div 50)"
proof -
  have step: "(n - i + 49) div 50 = Suc ((n - i + 49 - 50) div 50)"
    using assms by (intro le_div_geq) simp_all
  show ?thesis
  proof (cases "n - i < 50")
    case True
    with assms have "n - (i + 50) = 0" "(n - i + 49 - 50) div 50 = 0" by simp_all
    with step show ?thesis by simp
  next
    case False
    then have "n - (i + 50) + 49 = n - i + 49 - 50" by simp
    with step show ?thesis by simp
  qed
qed

lemma chunk_count_ceiling: "int ((n + 49) div 50) = \<lceil>real n / 50\<rceil>"
proof -
  have "\<lceil>real_of_int (int n) / real_of_int 50\<rceil> = - (- int n div 50)"
    by (rule ceiling_divide_eq_div)
  moreover have "- (- int n div 50) = int ((n + 49) div 50)"
    by (simp add: zdiv_int)
  ultimately show ?thesis by simp
qed


lemma chunk_count_bounds:
  fixes n :: nat
  shows "n \<le> 50 * ((n + 49) div 50)" and "k < (n + 49) div 50 \<Longrightarrow> 50 * k < n"
proof -
  define q where "q = (n + 49) div 50"
  define r where "r = (n + 49) mod 50"
  have "q * 50 + r = n + 49"
    unfolding q_def r_def by (rule div_mult_mod_eq)
  moreover have "r < 50"
    unfolding r_def by simp
  ultimately have "n \<le> 50 * q" and "k < q \<Longrightarrow> 50 * k < n"
    by linarith+
  then show "n \<le> 50 * ((n + 49) div 50)" and "k < (n + 49) div 50 \<Longrightarrow> 50 * k < n"
    unfolding q_def by simp_all
qed

lemma chunkLoop_slices:
  "chunkLoop events i chunked =
     chunked @
     map (\<lambda>k. slice events (i + k * smallEventSize) (i + (k + 1) * smallEventSize))
       [0..<(length events - i + 49) div 50]"
proof (induction events i chunked rule: chunkLoop.induct)
  case (1 events i chunked)
  show ?case
  proof (cases "i < length events")
    case False
    then show ?thesis by (simp add: chunkLoop.simps [of events i chunked])
  next
    case True
    let ?m = "(length events - (i + smallEventSize) + 49) div 50"
    have "chunkLoop events i chunked =
        chunkLoop events (i + smallEventSize) (chunked @ [slice events i (i + smallEventSize)])"
      using True by (simp add: chunkLoop.simps [of events i chunked])
    also have "\<dots> = (chunked @ [slice events i (i + smallEventSize)]) @
        map (\<lambda>k. slice events (i + smallEventSize + k * smallEventSize)
                    (i + smallEventSize + (k + 1) * smallEventSize))
          [0..<?m]"
      using "1.IH" [OF True] .
    also have "\<dots> = chunked @
        map (\<lambda>k. slice events (i + k * smallEventSize) (i + (k + 1) * smallEventSize))
          [0..<Suc ?m]"
      by (simp add: map_upt_Suc add.assoc del: upt_Suc)
    also have "Suc ?m = (length events - i + 49) div 50"
      using chunk_count_step [OF True] by (simp add: smallEventSize_def)
    finally show ?thesis .
  qed
qed


lemma chunkLoop_runs:
  "chunkLoop events 0 [] =
     map (\<lambda>k. take 50 (drop (50 * k) events)) [0..<(length events + 49) div 50]"
  by (simp add: chunkLoop_slices slice_def smallEventSize_def mult.commute)

lemma chunkLoop_length: "length (chunkLoop events 0 []) = (length events + 49) div 50"
  by (simp add: chunkLoop_runs)

lemma chunkLoop_nth:
  "k < (length events + 49) div 50 \<Longrightarrow>
     chunkLoop events 0 [] ! k = take 50 (drop (50 * k) events)"
  by (simp add: chunkLoop_runs)

lemma concat_runs: "concat (map (\<lambda>k. take 50 (drop (50 * k) xs)) [0..<m]) = take (50 * m) xs"
proof (induction m)
  case 0
  then show ?case by simp
next
  case (Suc m)
  have "take (50 * m + 50) xs = take (50 * m) xs @ take 50 (drop (50 * m) xs)"
    by (rule take_add)
  with Suc show ?case by (simp add: add.commute)
qed

lemma chunkLoop_concat: "concat (chunkLoop events 0 []) = events"
  using chunk_count_bounds(1) [of "length events"]
  by (simp add: chunkLoop_runs concat_runs)

lemma chunkLoop_sizes:
  assumes "c \<in> set (chunkLoop events 0 [])"
  shows "1 \<le> length c \<and> length c \<le> 50"
proof -
  from assms obtain k where k: "k < (length events + 49) div 50"
    and c: "c = take 50 (drop (50 * k) events)"
    by (auto simp: chunkLoop_runs)
  from chunk_count_bounds(2) [OF k] c show ?thesis by simp
qed

lemma chunkLoop_120:
  assumes "length events = 120"
  shows "map length (chunkLoop events 0 []) = [50, 50, 20]"
proof -
  have "[0..<(120 + 49) div 50] = [0, 1, 2]"
    by (simp add: upt_rec)
  with assms show ?thesis
    by (simp add: chunkLoop_runs)
qed

lemma flat_arrays: "flat (map JArr xss) = concat xss"
  by (induction xss) (simp_all add: flat_def)

lemma promiseAll_fulfilled:
  assumes "\<forall>r \<in> set rs. \<not> isl r"
  shows "promiseAll order rs = Inr (map projr rs)"
proof -
  have "filter (\<lambda>k. k < length rs \<and> isl (rs ! k)) (order @ [0..<length rs]) = []"
    using assms by (auto simp: filter_empty_conv)
  then show ?thesis by (simp add: promiseAll_def)
qed

lemma promiseAll_rejected:
  assumes "k < length rs" "isl (rs ! k)"
  shows "\<exists>j < length rs. isl (rs ! j) \<and> promiseAll order rs = Inl (projl (rs ! j))"
proof -
  let ?P = "\<lambda>k. k < length rs \<and> isl (rs ! k)"
  from assms have "k \<in> set (filter ?P (order @ [0..<length rs]))" by simp
  then have "filter ?P (order @ [0..<length rs]) \<noteq> []"
    by (metis empty_iff list.set(1))
  then obtain j js where js: "filter ?P (order @ [0..<length rs]) = j # js"
    by (meson neq_Nil_conv)
  then have "j \<in> set (filter ?P (order @ [0..<length rs]))" by simp
  then have "j \<in> {x \<in> set (order @ [0..<length rs]). ?P x}"
    by (simp only: set_filter)
  then have "?P j" by blast
  with js show ?thesis by (auto simp: promiseAll_def)
qed


lemma eventsOf_userWithEvents:
  "0 < n \<Longrightarrow> eventsOf (userWithEvents n) = Events (map (\<lambda>k. JNum (int k)) [1..<Suc n])"
  by (simp add: eventsOf_def userWithEvents_def)

lemma route_large:
  assumes "outcome 0 = Inr user" "eventsOf user = Events events" "length events > 50"
  shows "getEventsByUserId outcome order uid =
           (GetUserById uid # map GetEventsByIds (chunkLoop events 0 []),
            case promiseAll order
                   (map (\<lambda>k. outcome (Suc k)) [0..<length (chunkLoop events 0 [])]) of
              Inl e \<Rightarrow> Inl (Rejected e)
            | Inr vs \<Rightarrow> Inr (filter truthy (flat vs)))"
  using assms by (simp add: getEventsByUserId_def smallEventSize_def Let_def)

lemma route_small:
  assumes "outcome 0 = Inr user"
    and "eventsOf user = (if events = [] then NoEvents else Events events)"
    and "length events \<le> 50"
  shows "getEventsByUserId outcome order uid =
           (GetUserById uid # map GetEventById events,
            Inr (fulfilledValues (map (\<lambda>k. outcome (Suc k)) [0..<length events])))"
  using assms
  by (simp add: getEventsByUserId_def smallEventSize_def Let_def fulfilledValues_def)

lemma fulfilledValues_map_filter:
  "fulfilledValues (map g xs) =
     List.map_filter (\<lambda>k. case g k of Inl e \<Rightarrow> None | Inr v \<Rightarrow> Some v) xs"
  by (induction xs) (auto simp: fulfilledValues_def List.map_filter_simps split: sum.splits)

text \<open>
  Claim C5. For a user with more than 50 events the route cuts the list of
  identifiers into \<open>ceil(n / 50)\<close> chunks, chunk \<open>k\<close> being the run of (at most) 50
  identifiers that starts at index \<open>50 k\<close>: every chunk has between 1 and 50
  identifiers and the chunks, one after the other, are the input (120 identifiers
  give chunks of 50, 50 and 20). It makes one GetEventsByIds call per chunk, in the
  order of the chunks and all before awaiting any; when all of them are fulfilled it
  returns the values of the calls, flattened by one level (so the concatenation of the
  returned arrays, when arrays are returned), without the falsy entries.
\<close>

theorem chunked_fan_out:
  assumes "outcome 0 = Inr user" and "eventsOf user = Events events"
    and "length events > 50"
  shows "int (length (chunkLoop events 0 [])) = \<lceil>real (length events) / 50\<rceil> \<and>
    (\<forall>k < length (chunkLoop events 0 []).
       chunkLoop events 0 [] ! k = take 50 (drop (50 * k) events)) \<and>
    (\<forall>c \<in> set (chunkLoop events 0 []). 1 \<le> length c \<and> length c \<le> 50) \<and>
    concat (chunkLoop events 0 []) = events \<and>
    (length events = 120 \<longrightarrow> map length (chunkLoop events 0 []) = [50, 50, 20]) \<and>
    fst (getEventsByUserId outcome order uid) =
      GetUserById uid # map GetEventsByIds (chunkLoop events 0 []) \<and>
    ((\<forall>k < length (chunkLoop events 0 []). outcome (Suc k) = Inr (vals k)) \<longrightarrow>
       snd (getEventsByUserId outcome order uid) =
         Inr (filter truthy (flat (map vals [0..<length (chunkLoop events 0 [])])))) \<and>
    ((\<forall>k < length (chunkLoop events 0 []). outcome (Suc k) = Inr (JArr (coll k))) \<longrightarrow>
       snd (getEventsByUserId outcome order uid) =
         Inr (filter truthy (concat (map coll [0..<length (chunkLoop events 0 [])]))))"
proof -
  let ?chunked = "chunkLoop events 0 []"
  let ?rs = "map (\<lambda>k. outcome (Suc k)) [0..<length ?chunked]"
  note route = route_large [of outcome user events order uid, OF assms]
  have fulfilled: "snd (getEventsByUserId outcome order uid) =
      Inr (filter truthy (flat (map f [0..<length ?chunked])))"
    if "\<forall>k < length ?chunked. outcome (Suc k) = Inr (f k)" for f
  proof -
    from that have rs: "?rs = map (\<lambda>k. Inr (f k)) [0..<length ?chunked]" by simp
    have "promiseAll order ?rs = Inr (map projr ?rs)"
      unfolding rs by (rule promiseAll_fulfilled) auto
    then have "promiseAll order ?rs = Inr (map f [0..<length ?chunked])"
      unfolding rs by (simp add: comp_def)
    then show ?thesis by (simp add: route)
  qed
  have "snd (getEventsByUserId outcome order uid) =
      Inr (filter truthy (concat (map coll [0..<length ?chunked])))"
    if "\<forall>k < length ?chunked. outcome (Suc k) = Inr (JArr (coll k))"
    using fulfilled [of "\<lambda>k. JArr (coll k)", OF that]
      flat_arrays [of "map coll [0..<length ?chunked]"]
    by (simp add: comp_def)
  moreover have "\<forall>k < length ?chunked. ?chunked ! k = take 50 (drop (50 * k) events)"
    by (simp add: chunkLoop_length chunkLoop_nth)
  moreover have "int (length ?chunked) = \<lceil>real (length events) / 50\<rceil>"
    by (simp only: chunkLoop_length chunk_count_ceiling)
  ultimately show ?thesis
    using fulfilled [of vals] chunkLoop_sizes [of _ events] chunkLoop_concat [of events]
      chunkLoop_120 [of events] route
    by simp
qed


theorem chunked_fan_out_witness:
  "replies [Inr (userWithEvents 120), Inr (JArr [JNum 1, JNull]), Inr (JArr []),
            Inr (JArr [JNum 0, JStr ''e''])] 0 = Inr (userWithEvents 120) \<and>
   eventsOf (userWithEvents 120) = Events (map (\<lambda>k. JNum (int k)) [1..<121]) \<and>
   length (map (\<lambda>k. JNum (int k)) [1..<121]) > 50 \<and>
   map length (chunkLoop (map (\<lambda>k. JNum (int k)) [1..<121]) 0 []) = [50, 50, 20] \<and>
   snd (getEventsByUserId
          (replies [Inr (userWithEvents 120), Inr (JArr [JNum 1, JNull]), Inr (JArr []),
                    Inr (JArr [JNum 0, JStr ''e''])]) [2, 0, 1] ''7'') =
     Inr [JNum 1, JStr ''e'']"
proof -
  let ?outcome = "replies [Inr (userWithEvents 120), Inr (JArr [JNum 1, JNull]), Inr (JArr []),
            Inr (JArr [JNum 0, JStr ''e''])]"
  let ?events = "map (\<lambda>k. JNum (int k)) [1..<121]"
  let ?coll = "\<lambda>k. [[JNum 1, JNull], [], [JNum 0, JStr ''e'']] ! k"
  have h: "?outcome 0 = Inr (userWithEvents 120)" "eventsOf (userWithEvents 120) = Events ?events"
    "length ?events > 50"
    using eventsOf_userWithEvents [of 120] by (simp_all add: replies_def)
  note t = chunked_fan_out [where outcome = ?outcome and user = "userWithEvents 120"
      and events = ?events and order = "[2, 0, 1]" and uid = "''7''"
      and vals = "\<lambda>k. JArr (?coll k)" and coll = ?coll, OF h]
  have "length ?events = 120" by simp
  with t have sizes: "map length (chunkLoop ?events 0 []) = [50, 50, 20]" by blast
  have "length (map length (chunkLoop ?events 0 [])) = 3"
    unfolding sizes by simp
  then have three: "length (chunkLoop ?events 0 []) = 3" by simp
  have all: "\<forall>k < 3. ?outcome (Suc k) = Inr (JArr (?coll k))"
  proof (intro allI impI)
    fix k :: nat
    assume "k < 3"
    then consider "k = 0" | "k = 1" | "k = 2" by linarith
    then show "?outcome (Suc k) = Inr (JArr (?coll k))"
      by cases (simp_all add: replies_def)
  qed
  from t have "(\<forall>k < length (chunkLoop ?events 0 []). ?outcome (Suc k) = Inr (JArr (?coll k))) \<longrightarrow>
      snd (getEventsByUserId ?outcome [2, 0, 1] ''7'') =
        Inr (filter truthy (concat (map ?coll [0..<length (chunkLoop ?events 0 [])])))"
    by blast
  with all have "snd (getEventsByUserId ?outcome [2, 0, 1] ''7'') =
      Inr (filter truthy (concat (map ?coll [0..<3])))"
    unfolding three by blast
  also have "[0..<3] = [0, 1, 2]" by (simp add: upt_rec)
  finally have "snd (getEventsByUserId ?outcome [2, 0, 1] ''7'') = Inr [JNum 1, JStr ''e'']"
    by simp
  with h sizes show ?thesis by simp
qed

text \<open>
  Claim C6. For a user with at most 50 events (none included: the route then returns
  the empty array at once) the route makes exactly one GetEventById call per
  identifier, in the order of the identifiers and all before awaiting any; it never
  throws, whichever of the calls are rejected; and it returns, in the order of the
  identifiers, the payloads of exactly the calls that were fulfilled. With
  identifiers 1, 2, 3 and the call for 2 rejected it returns the items of 1 and 3.
\<close>

theorem single_fan_out:
  assumes "outcome 0 = Inr user"
    and "eventsOf user = (if events = [] then NoEvents else Events events)"
    and "length events \<le> 50"
  shows "getEventsByUserId outcome order uid =
           (GetUserById uid # map GetEventById events,
            Inr (List.map_filter
                   (\<lambda>k. case outcome (Suc k) of Inl e \<Rightarrow> None | Inr v \<Rightarrow> Some v)
                   [0..<length events]))"
proof -
  have "fulfilledValues (map (\<lambda>k. outcome (Suc k)) [0..<length events]) =
      List.map_filter (\<lambda>k. case outcome (Suc k) of Inl e \<Rightarrow> None | Inr v \<Rightarrow> Some v)
        [0..<length events]"
    by (rule fulfilledValues_map_filter)
  with route_small [of outcome user events order uid, OF assms] show ?thesis
    by simp
qed

theorem single_fan_out_witness:
  "replies [Inr (userWithEvents 3), Inr (JStr ''first''),
            Inl (serviceUnavailable ''Upstream service unavailable'' 30),
            Inr (JStr ''third'')] 0 = Inr (userWithEvents 3) \<and>
   eventsOf (userWithEvents 3) = Events [JNum 1, JNum 2, JNum 3] \<and>
   length [JNum 1, JNum 2, JNum 3] \<le> 50 \<and>
   getEventsByUserId (replies [Inr (JObj [(''events'', JArr [])])]) [] ''7'' =
     ([GetUserById ''7''], Inr []) \<and>
   getEventsByUserId
     (replies [Inr (userWithEvents 3), Inr (JStr ''first''),
               Inl (serviceUnavailable ''Upstream service unavailable'' 30),
               Inr (JStr ''third'')]) [] ''7'' =
     ([GetUserById ''7'', GetEventById (JNum 1), GetEventById (JNum 2), GetEventById (JNum 3)],
      Inr [JStr ''first'', JStr ''third''])"
proof -
  let ?outcome = "replies [Inr (userWithEvents 3), Inr (JStr ''first''),
            Inl (serviceUnavailable ''Upstream service unavailable'' 30),
            Inr (JStr ''third'')]"
  have e: "map (\<lambda>k. JNum (int k)) [1..<Suc 3] = [JNum 1, JNum 2, JNum 3]"
    by (simp add: upt_rec)
  have h: "?outcome 0 = Inr (userWithEvents 3)"
    "eventsOf (userWithEvents 3) = Events [JNum 1, JNum 2, JNum 3]"
    "length [JNum 1, JNum 2, JNum 3] \<le> 50"
    using eventsOf_userWithEvents [of 3] unfolding e by (simp_all add: replies_def)
  have h': "eventsOf (userWithEvents 3) =
      (if [JNum 1, JNum 2, JNum 3] = [] then NoEvents else Events [JNum 1, JNum 2, JNum 3])"
    using h(2) by simp
  have none: "getEventsByUserId (replies [Inr (JObj [(''events'', JArr [])])]) [] ''7'' =
      ([GetUserById ''7''], Inr [])"
    using single_fan_out [where outcome = "replies [Inr (JObj [(''events'', JArr [])])]"
        and user = "JObj [(''events'', JArr [])]" and events = "[]" and order = "[]"
        and uid = "''7''"]
    by (simp add: replies_def eventsOf_def List.map_filter_simps)
  have "[0..<length [JNum 1, JNum 2, JNum 3]] = [0, 1, 2]"
    by (simp add: upt_rec)
  with single_fan_out [where outcome = ?outcome and user = "userWithEvents 3"
      and events = "[JNum 1, JNum 2, JNum 3]" and order = "[]" and uid = "''7''",
      OF h(1) h' h(3)]
  have "getEventsByUserId ?outcome [] ''7'' =
     ([GetUserById ''7'', GetEventById (JNum 1), GetEventById (JNum 2), GetEventById (JNum 3)],
      Inr [JStr ''first'', JStr ''third''])"
    by (simp add: List.map_filter_simps replies_def)
  with h none show ?thesis by simp
qed


text \<open>
  The batched path does not swallow a failure: the route awaits \<open>Promise.all\<close> of the
  batch calls, so one rejected batch call makes the route throw the error of a
  rejected call, whatever the other batches returned.
\<close>

lemma rejected_chunk_rejects_route:
  assumes "outcome 0 = Inr user" and "eventsOf user = Events events"
    and "length events > 50"
    and "k < length (chunkLoop events 0 [])" and "outcome (Suc k) = Inl e"
  shows "\<exists>j < length (chunkLoop events 0 []). \<exists>e'.
           outcome (Suc j) = Inl e' \<and>
           snd (getEventsByUserId outcome order uid) = Inl (Rejected e')"
proof -
  let ?rs = "map (\<lambda>k. outcome (Suc k)) [0..<length (chunkLoop events 0 [])]"
  from assms(4,5) have "k < length ?rs" "isl (?rs ! k)" by simp_all
  from promiseAll_rejected [OF this, of order]
  obtain j where j: "j < length ?rs" "isl (?rs ! j)"
    "promiseAll order ?rs = Inl (projl (?rs ! j))"
    by blast
  then obtain e' where "outcome (Suc j) = Inl e'"
    by (cases "outcome (Suc j)") simp_all
  with j route_large [of outcome user events order uid, OF assms(1-3)] show ?thesis
    by (intro exI [of _ j]) simp
qed

text \<open>
  Claim C7 does not hold of the batched path. A user with 51 events gives two
  batches; the call for the first returns its item, the call for the second is
  rejected, and the route throws the error of the second call instead of returning
  what the first one brought.
\<close>

theorem chunk_failure_fails_aggregation:
  "snd (getEventsByUserId
          (replies [Inr (userWithEvents 51), Inr (JArr [JStr ''first'']),
                    Inl (serviceUnavailable ''Upstream service unavailable'' 30)])
          [0, 1] ''7'') =
     Inl (Rejected (serviceUnavailable ''Upstream service unavailable'' 30))"
proof -
  let ?outcome = "replies [Inr (userWithEvents 51), Inr (JArr [JStr ''first'']),
                    Inl (serviceUnavailable ''Upstream service unavailable'' 30)]"
  let ?events = "map (\<lambda>k. JNum (int k)) [1..<Suc 51]"
  have h: "?outcome 0 = Inr (userWithEvents 51)" "eventsOf (userWithEvents 51) = Events ?events"
    "length ?events > 50"
    using eventsOf_userWithEvents [of 51] by (simp_all add: replies_def)
  have two: "length (chunkLoop ?events 0 []) = 2"
    by (simp add: chunkLoop_length)
  have rs: "map (\<lambda>k. ?outcome (Suc k)) [0..<2] =
      [Inr (JArr [JStr ''first'']), Inl (serviceUnavailable ''Upstream service unavailable'' 30)]"
    by (simp add: upt_rec replies_def)
  have "promiseAll [0, 1] (map (\<lambda>k. ?outcome (Suc k)) [0..<2]) =
      Inl (serviceUnavailable ''Upstream service unavailable'' 30)"
    unfolding rs by (simp add: promiseAll_def upt_rec)
  with route_large [of ?outcome "userWithEvents 51" ?events "[0, 1]" "''7''", OF h]
  show ?thesis
    unfolding two by simp
qed

section \<open>Facts about interleaved calls\<close>

lemmas run_system =
  run_def step_def enter_def catchBlock_def gate_def openGate_def halfOpenGate_def
  meets_def finalFailure_def finallyBlock_def recordFailure_def recordSuccess_def
  pruneFailures_def transient_def ok_def initial_def start_def Let_def constants
  serviceUnavailable_def ceilSeconds_def

text \<open>
  In every state that interleaved calls can reach from the start, the flag
  \<open>probeInFlight\<close> is set only while the breaker is HALF_OPEN: an OPEN breaker never
  has it set.
\<close>

lemma flagOnlyHalfOpen_gate:
  "flagOnlyHalfOpen b \<Longrightarrow> flagOnlyHalfOpen (snd (gate b ts))"
  by (auto simp: flagOnlyHalfOpen_def gate_def openGate_def halfOpenGate_def
      split: if_splits)

lemma flagOnlyHalfOpen_catchBlock:
  "flagOnlyHalfOpen b \<Longrightarrow> flagOnlyHalfOpen (fst (catchBlock b n err a))"
  by (auto simp: flagOnlyHalfOpen_def catchBlock_def finalFailure_def finallyBlock_def
      Let_def recordFailure_state)

lemma flagOnlyHalfOpen_resume:
  "flagOnlyHalfOpen b \<Longrightarrow> flagOnlyHalfOpen (fst (resume b p a))"
proof (cases p)
  case (AtFetch n)
  assume "flagOnlyHalfOpen b"
  with AtFetch flagOnlyHalfOpen_catchBlock [of b n _ a] show ?thesis
    by (auto simp: initial_def flagOnlyHalfOpen_def split: fetched.splits)
next
  case (AtJson n body)
  assume "flagOnlyHalfOpen b"
  with AtJson flagOnlyHalfOpen_catchBlock [of b n _ a] show ?thesis
    by (auto simp: flagOnlyHalfOpen_def finallyBlock_def split: option.splits)
qed (auto simp: flagOnlyHalfOpen_catchBlock, auto simp: flagOnlyHalfOpen_def finallyBlock_def)

lemma flagOnlyHalfOpen_step:
  "flagOnlyHalfOpen (shared sys) \<Longrightarrow> flagOnlyHalfOpen (shared (step sys ev))"
proof (cases ev)
  case (Call ts)
  assume "flagOnlyHalfOpen (shared sys)"
  from flagOnlyHalfOpen_gate [OF this, of ts] Call show ?thesis
    by (auto simp: step_def enter_def split: prod.splits option.splits)
next
  case (Settle i a)
  assume inv: "flagOnlyHalfOpen (shared sys)"
  from inv flagOnlyHalfOpen_resume [OF inv, of "pc (calls sys ! i)" a] Settle show ?thesis
    by (auto simp: step_def split: prod.splits)
qed

lemma flagOnlyHalfOpen_run:
  "flagOnlyHalfOpen (shared sys) \<Longrightarrow> flagOnlyHalfOpen (shared (run sys evs))"
  unfolding run_def
  by (induction evs arbitrary: sys) (simp_all add: flagOnlyHalfOpen_step)

lemma open_without_probe:
  "state (shared (run start evs)) = OPEN \<Longrightarrow> \<not> probeInFlight (shared (run start evs))"
  using flagOnlyHalfOpen_run [of start evs]
  by (simp add: flagOnlyHalfOpen_def start_def initial_def)

text \<open>
  Claim C9 does not hold of the code. The finally block of the loop clears
  \<open>probeInFlight\<close> after every attempt made while the breaker is HALF_OPEN, also after
  one that failed transiently and is retried, so the probe call goes on with its next
  attempts while the flag is clear. Three calls at time 0 fail with HTTP 400 at 20 ms
  and open the breaker until 30020. The call at 30020 is the probe; the timer aborts
  its attempts 1 and 2 (at 32020 and 34120), and each backoff ends in the finally
  block. When a new call arrives at 35020, the time of \<open>nextProbeAt\<close>, the probe is in
  its third attempt, \<open>probeInFlight\<close> is false, and the new call passes the half-open
  block too: two probes have an attempt in flight while the breaker is HALF_OPEN.
\<close>

theorem two_probes_in_flight:
  "run start
     [Call 0, Call 0, Call 0,
      Settle 0 (meets (Response 400 None) 20), Settle 0 (meets (Response 400 None) 20),
      Settle 1 (meets (Response 400 None) 20), Settle 1 (meets (Response 400 None) 20),
      Settle 2 (meets (Response 400 None) 20), Settle 2 (meets (Response 400 None) 20),
      Call 30020,
      Settle 3 (meets Aborted 32020), Settle 3 (meets Aborted 32120),
      Settle 3 (meets Aborted 34120), Settle 3 (meets Aborted 34320),
      Call 35020] =
   \<lparr>shared = \<lparr>state = HALF_OPEN, failureTimes = [20, 20, 20], openUntil = 30020,
              nextProbeAt = 40020, probeInFlight = True\<rparr>,
    calls =
      [\<lparr>pc = Thrown (serviceUnavailable ''Upstream service unavailable'' 30), probe = False\<rparr>,
       \<lparr>pc = Thrown (serviceUnavailable ''Upstream service unavailable'' 30), probe = False\<rparr>,
       \<lparr>pc = Thrown (serviceUnavailable ''Upstream service unavailable'' 30), probe = False\<rparr>,
       \<lparr>pc = AtFetch 3, probe = True\<rparr>,
       \<lparr>pc = AtFetch 1, probe = True\<rparr>]\<rparr>"
  by (simp add: run_system)

section \<open>Interleaved calls and the single call\<close>

lemma retryLoop_defined:
  "n \<le> MAX_RETRIES + 1 \<Longrightarrow> fst (retryLoop env n b) \<noteq> Inr None"
proof (induction n b rule: retryLoop_induct)
  case (step n b)
  from step.prems show ?case
  proof (cases rule: retryLoop_cases [where b = b and env = env])
    case (returned p b1 told)
    then show ?thesis by simp
  next
    case (final err b1 told)
    then show ?thesis by simp
  next
    case (retry err r b2 tr)
    with step.IH [of "finallyBlock b"] show ?thesis by simp
  qed
qed

text \<open>A call never returns undefined: the loop returns or throws by its third attempt.\<close>

lemma upstream_defined: "fst (upstream b ts env) \<noteq> Inr None"
proof (cases "gate b ts")
  case (Pair r b1)
  then show ?thesis
    using retryLoop_defined [of 1 env b1]
    by (cases r) (simp_all add: upstream_def)
qed

text \<open>
  While the breaker is OPEN and the cooldown has not elapsed, whatever the calls in
  progress do leaves it OPEN with the same \<open>openUntil\<close>, and every call that arrives is
  rejected at the gate.
\<close>

lemma open_resume:
  assumes "state b = OPEN"
  shows "state (fst (resume b p a)) = OPEN \<and> openUntil (fst (resume b p a)) = openUntil b"
  using assms
  by (cases p)
     (auto simp: catchBlock_def finalFailure_def finallyBlock_def Let_def
        recordFailure_state recordFailure_openUntil split: fetched.splits option.splits)

lemma open_call:
  assumes "state (shared sys) = OPEN" "ts < openUntil (shared sys)"
  shows "step sys (Call ts) =
           \<lparr>shared = shared sys,
            calls = calls sys @
              [\<lparr>pc = Thrown (serviceUnavailable ''Upstream circuit open''
                                (ceilSeconds (openUntil (shared sys) - ts))),
                probe = False\<rparr>]\<rparr>"
  using assms by (simp add: step_def enter_def gate_def openGate_def)

lemma open_step:
  assumes "state (shared sys) = OPEN"
    and "\<And>ts. ev = Call ts \<Longrightarrow> ts < openUntil (shared sys)"
  shows "state (shared (step sys ev)) = OPEN \<and>
         openUntil (shared (step sys ev)) = openUntil (shared sys)"
proof (cases ev)
  case (Call ts)
  with assms open_call [of sys ts] show ?thesis by simp
next
  case (Settle i a)
  with open_resume [OF assms(1), of "pc (calls sys ! i)" a] assms(1) show ?thesis
    by (auto simp: step_def split: prod.splits)
qed

lemma open_run:
  assumes "state (shared sys) = OPEN"
    and "\<And>ts. Call ts \<in> set evs \<Longrightarrow> ts < openUntil (shared sys)"
  shows "state (shared (run sys evs)) = OPEN \<and>
         openUntil (shared (run sys evs)) = openUntil (shared sys)"
  using assms unfolding run_def
proof (induction evs arbitrary: sys)
  case Nil
  then show ?case by simp
next
  case (Cons ev evs)
  from open_step [of sys ev] Cons.prems
  have s: "state (shared (step sys ev)) = OPEN"
    "openUntil (shared (step sys ev)) = openUntil (shared sys)"
    by simp_all
  from Cons.IH [of "step sys ev"] s Cons.prems(2) show ?case by simp
qed


text \<open>
  The two models are the same code: a call that runs with no other call in between
  leaves the breaker, and ends, as \<open>upstream\<close> says.
\<close>

lemma settle_shared:
  "i < length (calls sys) \<Longrightarrow>
     shared (step sys (Settle i a)) = fst (resume (shared sys) (pc (calls sys ! i)) a)"
  by (simp add: step_def split: prod.splits)

lemma settle_pc:
  "i < length (calls sys) \<Longrightarrow>
     pc (calls (step sys (Settle i a)) ! i) = snd (resume (shared sys) (pc (calls sys ! i)) a)"
  by (simp add: step_def split: prod.splits)

lemma settle_length: "length (calls (step sys (Settle i a))) = length (calls sys)"
  by (simp add: step_def split: prod.splits)

lemma alone_over:
  "pc (calls sys ! i) = over r \<Longrightarrow> alone i env k sys = sys"
  by (cases k; cases r rule: sum.exhaust [case_names Inl Inr])
     (auto simp: over_def alone.simps split: option.splits)

lemma catchBlock_final:
  "\<not> transient err \<or> n > MAX_RETRIES \<Longrightarrow>
     catchBlock b n err a =
       (finalFailure b a, over (Inl (serviceUnavailable ''Upstream service unavailable'' 30)))"
  by (simp add: catchBlock_def over_def)

lemma catchBlock_retry:
  "transient err \<Longrightarrow> n \<le> MAX_RETRIES \<Longrightarrow> catchBlock b n err a = (b, AtSleep n)"
  by (auto simp: catchBlock_def)

text \<open>One attempt of the call, from its fetch to the next fetch or to the end.\<close>

lemma attempt_agrees:
  assumes i: "i < length (calls sys)" and at: "pc (calls sys ! i) = AtFetch n"
    and n: "n \<le> MAX_RETRIES + 1"
  shows "\<exists>sys' k'. k \<le> k' \<and> alone i env (Suc (Suc (Suc k))) sys = alone i env k' sys' \<and>
           i < length (calls sys') \<and>
           (case tryBlock (shared sys) (env n) of
              (Inr p, b1, told) \<Rightarrow>
                shared sys' = finallyBlock b1 \<and> pc (calls sys' ! i) = over (Inr (Some p))
            | (Inl err, b1, told) \<Rightarrow>
                if \<not> transient err \<or> n > MAX_RETRIES then
                  shared sys' = finalFailure b1 (env n) \<and>
                  pc (calls sys' ! i) =
                    over (Inl (serviceUnavailable ''Upstream service unavailable'' 30))
                else shared sys' = finallyBlock b1 \<and> pc (calls sys' ! i) = AtFetch (n + 1))"
proof -
  let ?a = "env n"
  let ?b = "shared sys"
  let ?s1 = "step sys (Settle i ?a)"
  let ?s2 = "step ?s1 (Settle i ?a)"
  let ?s3 = "step ?s2 (Settle i ?a)"
  have len: "i < length (calls ?s1)" "i < length (calls ?s2)" "i < length (calls ?s3)"
    using i by (simp_all add: settle_length)
  have a1: "alone i env (Suc m) sys = alone i env m ?s1" for m
    using at by (simp add: alone.simps)
  have thrown: ?thesis
    if t: "tryBlock ?b ?a = (Inl err, ?b, [])"
      and r: "resume ?b (AtFetch n) ?a = catchBlock ?b n err ?a" for err
  proof (cases "\<not> transient err \<or> n > MAX_RETRIES")
    case True
    with r at i have "shared ?s1 = finalFailure ?b ?a"
      "pc (calls ?s1 ! i) = over (Inl (serviceUnavailable ''Upstream service unavailable'' 30))"
      by (simp_all add: settle_shared settle_pc catchBlock_final)
    with True t len a1 [of "Suc (Suc k)"] show ?thesis
      by (intro exI [of _ ?s1] exI [of _ "Suc (Suc k)"]) simp
  next
    case False
    then have retry: "transient err" "n \<le> MAX_RETRIES" by auto
    with r at i have s1: "shared ?s1 = ?b" "pc (calls ?s1 ! i) = AtSleep n"
      by (simp_all add: settle_shared settle_pc catchBlock_retry)
    with retry have s2: "shared ?s2 = finallyBlock ?b" "pc (calls ?s2 ! i) = AtFetch (n + 1)"
      by (simp_all add: settle_shared [OF len(1)] settle_pc [OF len(1)])
    have "alone i env (Suc (Suc (Suc k))) sys = alone i env (Suc k) ?s2"
      using a1 [of "Suc (Suc k)"] s1 by (simp add: alone.simps)
    with False t len s2 show ?thesis
      by (intro exI [of _ ?s2] exI [of _ "Suc k"]) simp
  qed
  show ?thesis
  proof (cases "fetched ?a")
    case Aborted
    then show ?thesis
      by (intro thrown [of "\<lparr>name = ''AbortError'', status = None\<rparr>"])
         (simp_all add: tryBlock_def)
  next
    case NetworkFailure
    then show ?thesis
      by (intro thrown [of "\<lparr>name = ''TypeError'', status = None\<rparr>"])
         (simp_all add: tryBlock_def)
  next
    case (Response s body)
    show ?thesis
    proof (cases "ok s")
      case False
      let ?err = "\<lparr>name = ''Error'', status = Some s\<rparr>"
      from False Response have t: "tryBlock ?b ?a = (Inl ?err, ?b, [])"
        by (simp add: tryBlock_def)
      from False Response at i have s1: "shared ?s1 = ?b" "pc (calls ?s1 ! i) = AtText n s"
        by (simp_all add: settle_shared settle_pc)
      have a2: "alone i env (Suc (Suc m)) sys = alone i env m ?s2" for m
        using a1 [of "Suc m"] s1 by (simp add: alone.simps)
      show ?thesis
      proof (cases "\<not> transient ?err \<or> n > MAX_RETRIES")
        case True
        with s1 have "shared ?s2 = finalFailure ?b ?a"
          "pc (calls ?s2 ! i) =
             over (Inl (serviceUnavailable ''Upstream service unavailable'' 30))"
          by (simp_all add: settle_shared [OF len(1)] settle_pc [OF len(1)] catchBlock_final)
        with True t len a2 [of "Suc k"] show ?thesis
          by (intro exI [of _ ?s2] exI [of _ "Suc k"]) simp
      next
        case retry: False
        then have r: "transient ?err" "n \<le> MAX_RETRIES" by auto
        with s1 have s2: "shared ?s2 = ?b" "pc (calls ?s2 ! i) = AtSleep n"
          by (simp_all add: settle_shared [OF len(1)] settle_pc [OF len(1)] catchBlock_retry)
        with r have s3: "shared ?s3 = finallyBlock ?b" "pc (calls ?s3 ! i) = AtFetch (n + 1)"
          by (simp_all add: settle_shared [OF len(2)] settle_pc [OF len(2)])
        have "alone i env (Suc (Suc (Suc k))) sys = alone i env k ?s3"
          using a2 [of "Suc k"] s2 by (simp add: alone.simps)
        with retry t len s3 show ?thesis
          by (intro exI [of _ ?s3] exI [of _ k]) simp
      qed
    next
      case True
      let ?b1 = "if state ?b = HALF_OPEN then recordSuccess ?b else pruneFailures ?b (nowPrune ?a)"
      from True Response at i have s1: "shared ?s1 = ?b1" "pc (calls ?s1 ! i) = AtJson n body"
        by (simp_all add: settle_shared settle_pc)
      have a2: "alone i env (Suc (Suc (Suc k))) sys = alone i env (Suc k) ?s2"
        using a1 [of "Suc (Suc k)"] s1 by (simp add: alone.simps)
      show ?thesis
      proof (cases body)
        case (Some p)
        with True Response have t: "\<exists>told. tryBlock ?b ?a = (Inr p, ?b1, told)"
          by (simp add: tryBlock_def)
        from Some s1 have "shared ?s2 = finallyBlock ?b1" "pc (calls ?s2 ! i) = over (Inr (Some p))"
          by (simp_all add: settle_shared [OF len(1)] settle_pc [OF len(1)] over_def)
        with t len a2 show ?thesis
          by (intro exI [of _ ?s2] exI [of _ "Suc k"]) auto
      next
        case None
        let ?err = "\<lparr>name = ''SyntaxError'', status = None\<rparr>"
        from None True Response have t: "\<exists>told. tryBlock ?b ?a = (Inl ?err, ?b1, told)"
          by (simp add: tryBlock_def)
        have nt: "\<not> transient ?err" by (simp add: transient_def)
        with None s1 have "shared ?s2 = finalFailure ?b1 ?a"
          "pc (calls ?s2 ! i) =
             over (Inl (serviceUnavailable ''Upstream service unavailable'' 30))"
          by (simp_all add: settle_shared [OF len(1)] settle_pc [OF len(1)] catchBlock_final)
        with t nt len a2 show ?thesis
          by (intro exI [of _ ?s2] exI [of _ "Suc k"]) auto
      qed
    qed
  qed
qed


lemma alone_retryLoop:
  "shared sys = b \<Longrightarrow> i < length (calls sys) \<Longrightarrow> pc (calls sys ! i) = AtFetch n \<Longrightarrow>
   n \<le> MAX_RETRIES + 1 \<Longrightarrow> 3 * (MAX_RETRIES + 2 - n) \<le> k \<Longrightarrow>
     shared (alone i env k sys) = fst (snd (retryLoop env n b)) \<and>
     pc (calls (alone i env k sys) ! i) = over (fst (retryLoop env n b))"
proof (induction n b arbitrary: sys k rule: retryLoop_induct)
  case (step n b)
  from step.prems(4,5) obtain k0 where k: "k = Suc (Suc (Suc k0))"
    and k0: "3 * (MAX_RETRIES + 1 - n) \<le> k0"
    by (cases k; cases "k - 1"; cases "k - 2") auto
  note att0 = attempt_agrees [where env = env and k = k0, OF step.prems(2,3,4),
      unfolded step.prems(1), folded k]
  then obtain sys' k' where k': "k0 \<le> k'" and run: "alone i env k sys = alone i env k' sys'"
    and i': "i < length (calls sys')"
    and att: "case tryBlock b (env n) of
        (Inr p, b1, told) \<Rightarrow>
          shared sys' = finallyBlock b1 \<and> pc (calls sys' ! i) = over (Inr (Some p))
      | (Inl err, b1, told) \<Rightarrow>
          if \<not> transient err \<or> n > MAX_RETRIES then
            shared sys' = finalFailure b1 (env n) \<and>
            pc (calls sys' ! i) =
              over (Inl (serviceUnavailable ''Upstream service unavailable'' 30))
          else shared sys' = finallyBlock b1 \<and> pc (calls sys' ! i) = AtFetch (n + 1)"
    by (elim exE conjE)
  from step.prems(4) show ?case
  proof (cases rule: retryLoop_cases [where b = b and env = env])
    case (returned p b1 told)
    with att have "shared sys' = finallyBlock b1" "pc (calls sys' ! i) = over (Inr (Some p))"
      by simp_all
    with returned run alone_over [of sys' i "Inr (Some p)" env k'] show ?thesis by simp
  next
    case (final err b1 told)
    let ?e = "serviceUnavailable ''Upstream service unavailable'' 30"
    from final att have "shared sys' = finalFailure b1 (env n)"
      "pc (calls sys' ! i) = over (Inl ?e)"
      by auto
    with final run alone_over [of sys' i "Inl ?e" env k'] show ?thesis by simp
  next
    case (retry err r b2 tr)
    with att have s': "shared sys' = finallyBlock b" "pc (calls sys' ! i) = AtFetch (n + 1)"
      by auto
    from retry(3) k0 k' have fuel: "3 * (MAX_RETRIES + 2 - (n + 1)) \<le> k'" by simp
    from step.IH [OF retry(3) s'(1) i' s'(2) _ fuel] retry(3)
    have "shared (alone i env k' sys') = fst (snd (retryLoop env (n + 1) (finallyBlock b)))"
      "pc (calls (alone i env k' sys') ! i) = over (fst (retryLoop env (n + 1) (finallyBlock b)))"
      by simp_all
    with retry run show ?thesis by simp
  qed
qed

lemma alone_upstream:
  assumes "i = length (calls sys)" and "9 \<le> k"
  shows "shared (alone i env k (step sys (Call ts))) = fst (snd (upstream (shared sys) ts env)) \<and>
         pc (calls (alone i env k (step sys (Call ts))) ! i) =
           over (fst (upstream (shared sys) ts env))"
proof (cases "gate (shared sys) ts")
  case (Pair r b1)
  show ?thesis
  proof (cases r)
    case (Some e)
    with Pair assms(1) have "shared (step sys (Call ts)) = b1"
      "pc (calls (step sys (Call ts)) ! i) = over (Inl e)"
      by (simp_all add: step_def enter_def over_def)
    with Pair Some alone_over [of "step sys (Call ts)" i "Inl e" env k] show ?thesis
      by (simp add: upstream_def)
  next
    case None
    with Pair assms(1) have s: "shared (step sys (Call ts)) = b1"
      "i < length (calls (step sys (Call ts)))"
      "pc (calls (step sys (Call ts)) ! i) = AtFetch 1"
      by (simp_all add: step_def enter_def)
    from assms(2) have "3 * (MAX_RETRIES + 2 - 1) \<le> k" by (simp add: MAX_RETRIES_def)
    from alone_retryLoop [where env = env, OF s _ this] Pair None show ?thesis
      by (simp add: upstream_def)
  qed
qed

end
